theory Spec2Isabelle
  imports Complex_Main
begin

unbundle bit_operations_syntax

section \<open>Episode bitwise encoding: the data model\<close>

text \<open>
  The source is \<^verbatim>\<open>EBEncoding.py\<close>. Python integers are unbounded, so a coding is an
  \<^typ>\<open>int\<close>; a bit size and a loop count are natural numbers. Python's shift
  \<^verbatim>\<open>v << k\<close> is \<^term>\<open>push_bit k v\<close>, and \<^verbatim>\<open>|\<close>, \<^verbatim>\<open>&\<close>, \<^verbatim>\<open>~\<close> are \<open>OR\<close>,
  \<open>AND\<close>, \<open>NOT\<close> on \<^typ>\<open>int\<close> (two's complement with infinitely many sign bits, as in
  Python).

  Every \<^verbatim>\<open>raise Exception(...)\<close> of the source is a value of \<open>error\<close>:
  \<^item> \<open>InvalidWidth\<close>: "value is too large to fit the size", raised by the constructor;
  \<^item> \<open>IncompatibleOperands\<close>: "one or more operands are not EBEncoding instances or they
    are not equally sized";
  \<^item> \<open>IncompatibleSize\<close>: "intersecting with an incompatible vector";
  \<^item> \<open>ZeroDivisionError\<close>: the float division of \<^verbatim>\<open>scale_down\<close> by a group size of 0;
  \<^item> \<open>OverflowError\<close>: an integer too large to convert to a float in \<^verbatim>\<open>scale_down\<close>,
    and a \<^verbatim>\<open>datetime\<close> plus a \<^verbatim>\<open>timedelta\<close> outside the range of \<^verbatim>\<open>datetime\<close>;
  \<^item> \<open>IndexError\<close>: a list read out of range;
  \<^item> \<open>CreationError\<close>: \<^verbatim>\<open>BitArray(bin(v))\<close> on a negative \<^verbatim>\<open>v\<close>, whose text
    \<^verbatim>\<open>-0b...\<close> is no bit string.
\<close>

datatype error =
  InvalidWidth | IncompatibleOperands | IncompatibleSize
  | ZeroDivisionError | OverflowError | IndexError | CreationError

record EBEncoding =
  coding :: int
  bit_size :: nat

text \<open>The constructor \<^verbatim>\<open>__init__(self, value, size)\<close>.\<close>

definition EBEncoding_init :: "int \<Rightarrow> nat \<Rightarrow> error + EBEncoding" where
  "EBEncoding_init v sz =
     (if v \<ge> 2 ^ sz - 1 then Inl InvalidWidth
      else Inr \<lparr>coding = v, bit_size = sz\<rparr>)"

definition size_eb :: "EBEncoding \<Rightarrow> nat" where
  "size_eb e = bit_size e"

definition coding_value :: "EBEncoding \<Rightarrow> int" where
  "coding_value e = coding e"

subsection \<open>The bit list\<close>

text \<open>
  \<^verbatim>\<open>bin(n)\<close> of a non-negative \<^verbatim>\<open>n\<close> is \<^verbatim>\<open>0b\<close> followed by the binary digits of
  \<^verbatim>\<open>n\<close> without leading zeros (\<^verbatim>\<open>0b0\<close> for 0); \<^verbatim>\<open>BitArray\<close> of that text holds exactly
  those digits, so \<^verbatim>\<open>len(arr)\<close> is their number and \<^verbatim>\<open>arr.bin\<close> their text.
\<close>

fun bin_digits :: "nat \<Rightarrow> string" where
  "bin_digits n =
     (if n < 2 then [if n = 0 then CHR ''0'' else CHR ''1'']
      else bin_digits (n div 2) @ [if n mod 2 = 0 then CHR ''0'' else CHR ''1''])"

declare bin_digits.simps [simp del]

definition get_bin_list :: "EBEncoding \<Rightarrow> error + string" where
  "get_bin_list e =
     (if coding e < 0 then Inl CreationError
      else
        let arr = bin_digits (nat (coding e)) in
        Inr (map (\<lambda>idx.
               if int idx < int (size_eb e) - int (length arr) then CHR ''0''
               else arr ! nat (int (length arr) - int (size_eb e) + int idx))
             [0..<size_eb e]))"

subsection \<open>Scaling down\<close>

text \<open>
  The slice \<^verbatim>\<open>xs[a:b]\<close> for non-negative \<^verbatim>\<open>a\<close>, \<^verbatim>\<open>b\<close>.
\<close>

definition slice :: "'a list \<Rightarrow> nat \<Rightarrow> nat \<Rightarrow> 'a list" where
  "slice xs a b = take (b - a) (drop a xs)"

text \<open>
  The body of the loop of \<^verbatim>\<open>scale_down\<close>, at index \<open>i\<close>, on the accumulator
  \<^verbatim>\<open>result_coding\<close>.
\<close>

definition scale_down_step :: "string \<Rightarrow> nat \<Rightarrow> nat \<Rightarrow> nat \<Rightarrow> int \<Rightarrow> int" where
  "scale_down_step barr bits2merge final_size i result_coding =
     (let num_one =
            count_list (slice barr (i * bits2merge) (min ((i + 1) * bits2merge) (length barr)))
              (CHR ''1'')
      in if num_one > 0 then result_coding OR push_bit (final_size - i - 1) 1
         else result_coding)"

text \<open>
  \<^verbatim>\<open>int(math.ceil(self.size() * 1.0 / bits2merge))\<close> is a computation on floats.
  \<^verbatim>\<open>self.size() * 1.0\<close> converts the size to a float and the division converts
  \<^verbatim>\<open>bits2merge\<close>; the conversion of an integer rounds to the nearest double, ties to
  even, and raises \<^verbatim>\<open>OverflowError\<close> when the result would be \<open>2 ^ 1024\<close>, that is
  from \<open>2 ^ 1024 - 2 ^ 970\<close> on (the largest double is \<open>2 ^ 1024 - 2 ^ 971\<close>). The
  division by a zero \<^verbatim>\<open>bits2merge\<close> raises \<^verbatim>\<open>ZeroDivisionError\<close>.
\<close>

definition float_limit :: nat where
  "float_limit = 2 ^ 1024 - 2 ^ 970"

text \<open>
  Below the limit the quotient and its ceiling are modelled on the reals. The doubles
  give the same integer whenever the size is below \<open>2 ^ 53\<close>: the size is then converted
  exactly, and the rounded quotient of a size by a (rounded) group size is an integer
  only if the exact quotient is one. The theorems about \<^verbatim>\<open>scale_down\<close> are stated for
  such sizes.
\<close>

definition scale_down :: "nat \<Rightarrow> EBEncoding \<Rightarrow> error + EBEncoding" where
  "scale_down bits2merge e =
     (case get_bin_list e of
        Inl err \<Rightarrow> Inl err
      | Inr barr \<Rightarrow>
          if float_limit \<le> size_eb e then Inl OverflowError
          else if float_limit \<le> bits2merge then Inl OverflowError
          else if bits2merge = 0 then Inl ZeroDivisionError
          else
            let final_size = nat \<lceil>real (size_eb e) * 1 / real bits2merge\<rceil>;
                result_coding =
                  fold (scale_down_step barr bits2merge final_size) [0..<final_size] 0
            in Inr (e\<lparr>bit_size := final_size, coding := result_coding\<rparr>))"

subsection \<open>Post-expansion\<close>

text \<open>
  The loop of \<^verbatim>\<open>post_expand\<close> on the pair \<^verbatim>\<open>(self.coding, x)\<close>: \<open>n\<close> rounds of
  \<^verbatim>\<open>self.coding |= self.coding << 1; x |= x << 1\<close>.
\<close>

fun post_expand_loop :: "nat \<Rightarrow> int \<times> int \<Rightarrow> int \<times> int" where
  "post_expand_loop 0 (c, x) = (c, x)"
| "post_expand_loop (Suc n) (c, x) = post_expand_loop n (c OR push_bit 1 c, x OR push_bit 1 x)"

definition post_expand :: "nat \<Rightarrow> EBEncoding \<Rightarrow> EBEncoding" where
  "post_expand num_bits e =
     (case post_expand_loop num_bits (coding e, push_bit (bit_size e) 1) of
        (c, x) \<Rightarrow> e\<lparr>coding := c AND NOT x\<rparr>)"

text \<open>
  Post-expansion as the specification words it, for comparison with the source: \<open>n\<close>
  rounds of OR-ing the value with itself shifted right by 1, then the bits at and beyond
  the width discarded.
\<close>

fun spec_expand_loop :: "nat \<Rightarrow> int \<Rightarrow> int" where
  "spec_expand_loop 0 c = c"
| "spec_expand_loop (Suc n) c = spec_expand_loop n (c OR drop_bit 1 c)"

definition post_expand_spec :: "nat \<Rightarrow> EBEncoding \<Rightarrow> EBEncoding" where
  "post_expand_spec extra_bits e =
     e\<lparr>coding := take_bit (bit_size e) (spec_expand_loop extra_bits (coding e))\<rparr>"

subsection \<open>Cloning and the combinators\<close>

definition clone :: "EBEncoding \<Rightarrow> error + EBEncoding" where
  "clone e = EBEncoding_init (coding e) (size_eb e)"

definition eb_and :: "EBEncoding \<Rightarrow> EBEncoding \<Rightarrow> error + EBEncoding" where
  "eb_and e1 e2 =
     (if size_eb e1 = size_eb e2
      then (let v = coding_value e1 AND coding_value e2 in EBEncoding_init v (size_eb e1))
      else Inl IncompatibleOperands)"

definition eb_or :: "EBEncoding \<Rightarrow> EBEncoding \<Rightarrow> error + EBEncoding" where
  "eb_or e1 e2 =
     (if size_eb e1 = size_eb e2
      then (let v = coding_value e1 OR coding_value e2 in EBEncoding_init v (size_eb e1))
      else Inl IncompatibleOperands)"

definition op_consistence :: "EBEncoding \<Rightarrow> EBEncoding \<Rightarrow> error + unit" where
  "op_consistence e1 e2 =
     (if size_eb e1 \<noteq> size_eb e2 then Inl IncompatibleOperands else Inr ())"

definition interaction :: "EBEncoding \<Rightarrow> EBEncoding \<Rightarrow> nat \<Rightarrow> error + EBEncoding" where
  "interaction e1 e2 pe_bits =
     (if coding_value e1 = 0 \<or> coding_value e2 = 0 then EBEncoding_init 0 (size_eb e1)
      else
        case op_consistence e1 e2 of
          Inl err \<Rightarrow> Inl err
        | Inr _ \<Rightarrow>
            (case clone e1 of
               Inl err \<Rightarrow> Inl err
             | Inr c1 \<Rightarrow>
                 let pe_e1 = post_expand pe_bits c1 in
                 (case clone e2 of
                    Inl err \<Rightarrow> Inl err
                  | Inr c2 \<Rightarrow>
                      let pe_e2 = post_expand pe_bits c2 in
                      eb_and pe_e1 pe_e2)))"

subsection \<open>Encoding a time window\<close>

text \<open>
  \<^verbatim>\<open>get_encoding(start_time, end_time, coordinate_time, time_delta, num_bits)\<close> works on
  \<^verbatim>\<open>datetime\<close> instants and a \<^verbatim>\<open>timedelta\<close> step (its default is
  \<^verbatim>\<open>timedelta(days=-1)\<close>). Both have a resolution of one microsecond, so an instant is
  modelled as the number of microseconds since \<^verbatim>\<open>datetime.min\<close> (0001-01-01 00:00:00)
  and a step as a signed number of microseconds. \<^verbatim>\<open>datetime.max\<close> is
  9999-12-31 23:59:59.999999, the last microsecond of day 3652059.
\<close>

definition datetime_min :: int where
  "datetime_min = 0"

definition datetime_max :: int where
  "datetime_max = 3652059 * 86400000000 - 1"

text \<open>
  \<^verbatim>\<open>cur + time_delta\<close> raises \<^verbatim>\<open>OverflowError\<close> when the sum is not a
  \<^verbatim>\<open>datetime\<close>.
\<close>

definition datetime_add :: "int \<Rightarrow> int \<Rightarrow> error + int" where
  "datetime_add cur time_delta =
     (if datetime_min \<le> cur + time_delta \<and> cur + time_delta \<le> datetime_max
      then Inr (cur + time_delta) else Inl OverflowError)"

text \<open>
  The loop state is \<^verbatim>\<open>(cur, code, is_in)\<close>; \<^verbatim>\<open>interval\<close> is the constant 1 of the
  source. The source is Python 2 (it uses \<^verbatim>\<open>print\<close> statements), where \<^verbatim>\<open>/\<close> on
  integers is floor division, so the shift count \<^verbatim>\<open>(num_bits - 1 - i) / interval\<close> is
  \<open>div\<close>. The body ends with \<^verbatim>\<open>cur = cur + time_delta\<close>, in the last round too.
\<close>

definition interval :: nat where
  "interval = 1"

definition get_encoding_step ::
  "int \<Rightarrow> int \<Rightarrow> int \<Rightarrow> nat \<Rightarrow> nat \<Rightarrow> int \<times> int \<times> bool \<Rightarrow> error + int \<times> int \<times> bool" where
  "get_encoding_step start_time end_time time_delta num_bits i st =
     (case st of (cur, code, is_in) \<Rightarrow>
        let is_in1 = (if start_time \<le> cur \<and> cur \<le> end_time then True else is_in);
            code1 = (if i mod interval = 0
                     then (if is_in1 then code OR push_bit ((num_bits - 1 - i) div interval) 1
                           else code)
                     else code);
            is_in2 = (if i mod interval = 0 then False else is_in1)
        in case datetime_add cur time_delta of
             Inl err \<Rightarrow> Inl err
           | Inr cur1 \<Rightarrow> Inr (cur1, code1, is_in2))"

fun get_encoding_loop ::
  "int \<Rightarrow> int \<Rightarrow> int \<Rightarrow> nat \<Rightarrow> nat list \<Rightarrow> int \<times> int \<times> bool \<Rightarrow> error + int \<times> int \<times> bool" where
  "get_encoding_loop start_time end_time time_delta num_bits [] st = Inr st"
| "get_encoding_loop start_time end_time time_delta num_bits (i # rest) st =
     (case get_encoding_step start_time end_time time_delta num_bits i st of
        Inl err \<Rightarrow> Inl err
      | Inr st1 \<Rightarrow> get_encoding_loop start_time end_time time_delta num_bits rest st1)"

definition get_encoding :: "int \<Rightarrow> int \<Rightarrow> int \<Rightarrow> int \<Rightarrow> nat \<Rightarrow> error + EBEncoding" where
  "get_encoding start_time end_time coordinate_time time_delta num_bits =
     (case get_encoding_loop start_time end_time time_delta num_bits [0..<num_bits]
             (coordinate_time, 0, False) of
        Inl err \<Rightarrow> Inl err
      | Inr (cur, code, is_in) \<Rightarrow> EBEncoding_init code num_bits)"

section \<open>Vectors of encodings\<close>













section \<open>Construction\<close>

text \<open>
  Claim C2. \<^verbatim>\<open>construct(v, w)\<close> fails with \<open>InvalidWidth\<close> for every \<open>v \<ge> 2 ^ w - 1\<close>, and
  for every \<open>0 \<le> v < 2 ^ w - 1\<close> it succeeds with an instance whose value and width
  accessors give back \<open>v\<close> and \<open>w\<close>.
\<close>

theorem construct_boundary:
  "(v \<ge> 2 ^ w - 1 \<longrightarrow> EBEncoding_init v w = Inl InvalidWidth) \<and>
   (0 \<le> v \<and> v < 2 ^ w - 1 \<longrightarrow>
      (\<exists>e. EBEncoding_init v w = Inr e \<and> coding_value e = v \<and> size_eb e = w))"
  by (simp add: EBEncoding_init_def coding_value_def size_eb_def)

theorem construct_boundary_witness:
  "EBEncoding_init 3 2 = Inl InvalidWidth \<and>
   (\<exists>e. EBEncoding_init 2 2 = Inr e \<and> coding_value e = 2 \<and> size_eb e = 2)"
  using construct_boundary [of 2 3] construct_boundary [of 2 2] by simp

section \<open>Bits of the post-expansion loop\<close>

lemma init_ok: "v < 2 ^ w - 1 \<Longrightarrow> EBEncoding_init v w = Inr \<lparr>coding = v, bit_size = w\<rparr>"
  by (simp add: EBEncoding_init_def)

lemma init_fail: "2 ^ w - 1 \<le> v \<Longrightarrow> EBEncoding_init v w = Inl InvalidWidth"
  by (simp add: EBEncoding_init_def)

lemma init_InrD: "EBEncoding_init v w = Inr e \<Longrightarrow> e = \<lparr>coding = v, bit_size = w\<rparr> \<and> v < 2 ^ w - 1"
  by (simp add: EBEncoding_init_def split: if_splits)

lemma bits_below_iff:
  "(0 \<le> v \<and> v < 2 ^ w) \<longleftrightarrow> (\<forall>k. bit v k \<longrightarrow> k < w)" for v :: int
proof
  assume "0 \<le> v \<and> v < 2 ^ w"
  then have "take_bit w v = v" by (simp add: take_bit_int_eq_self_iff)
  then show "\<forall>k. bit v k \<longrightarrow> k < w"
    by (metis bit_take_bit_iff)
next
  assume a: "\<forall>k. bit v k \<longrightarrow> k < w"
  have "take_bit w v = v"
    by (rule bit_eqI) (use a in \<open>auto simp: bit_take_bit_iff\<close>)
  then show "0 \<le> v \<and> v < 2 ^ w" by (simp add: take_bit_int_eq_self_iff)
qed

lemma bit_or_shift1:
  "bit (c OR push_bit 1 c) m \<longleftrightarrow> bit c m \<or> (1 \<le> m \<and> bit c (m - 1))" for c :: int
  by (simp only: bit_or_iff bit_push_bit_iff) auto

lemma expand_step_ex:
  "(\<exists>j\<le>n. j \<le> k \<and> bit (c OR push_bit 1 c) (k - j)) \<longleftrightarrow> (\<exists>j\<le>Suc n. j \<le> k \<and> bit c (k - j))"
  (is "?L \<longleftrightarrow> ?R") for c :: int
proof
  assume ?L
  then obtain j where j: "j \<le> n" "j \<le> k" "bit (c OR push_bit 1 c) (k - j)" by blast
  from j(3) consider "bit c (k - j)" | "1 \<le> k - j" "bit c (k - j - 1)"
    unfolding bit_or_shift1 by blast
  then show ?R
  proof cases
    case 1
    with j show ?thesis by (intro exI [of _ j]) simp
  next
    case 2
    with j show ?thesis by (intro exI [of _ "Suc j"]) simp
  qed
next
  assume ?R
  then obtain j where j: "j \<le> Suc n" "j \<le> k" "bit c (k - j)" by blast
  show ?L
  proof (cases j)
    case 0
    with j have "bit (c OR push_bit 1 c) (k - 0)" unfolding bit_or_shift1 by simp
    then show ?thesis by (intro exI [of _ 0]) simp
  next
    case (Suc i)
    from Suc j have "1 \<le> k - i" and "k - i - 1 = k - j" by simp_all
    with j have "bit (c OR push_bit 1 c) (k - i)" unfolding bit_or_shift1 by simp
    with Suc j show ?thesis by (intro exI [of _ i]) simp
  qed
qed

lemma bit_post_expand_loop_fst:
  "bit (fst (post_expand_loop n (c, x))) k \<longleftrightarrow> (\<exists>j\<le>n. j \<le> k \<and> bit c (k - j))"
proof (induction n arbitrary: c x)
  case 0
  then show ?case by simp
next
  case (Suc n)
  show ?case
    using Suc.IH [of "c OR push_bit 1 c" "x OR push_bit 1 x"] expand_step_ex [of n k c]
    by (simp only: post_expand_loop.simps)
qed

lemma bit_post_expand_loop_snd:
  "bit (snd (post_expand_loop n (c, x))) k \<longleftrightarrow> (\<exists>j\<le>n. j \<le> k \<and> bit x (k - j))"
proof (induction n arbitrary: c x)
  case 0
  then show ?case by simp
next
  case (Suc n)
  show ?case
    using Suc.IH [of "c OR push_bit 1 c" "x OR push_bit 1 x"] expand_step_ex [of n k x]
    by (simp only: post_expand_loop.simps)
qed

lemma bit_post_expand:
  "bit (coding (post_expand n e)) k \<longleftrightarrow>
     (\<exists>j\<le>n. j \<le> k \<and> bit (coding e) (k - j)) \<and> \<not> (bit_size e \<le> k \<and> k \<le> bit_size e + n)"
proof -
  obtain c x where cx: "post_expand_loop n (coding e, push_bit (bit_size e) 1) = (c, x)"
    by (cases "post_expand_loop n (coding e, push_bit (bit_size e) 1)")
  have c: "bit c k \<longleftrightarrow> (\<exists>j\<le>n. j \<le> k \<and> bit (coding e) (k - j))"
    using bit_post_expand_loop_fst [of n "coding e" "push_bit (bit_size e) 1" k]
    by (simp only: cx fst_conv)
  have "bit x k \<longleftrightarrow> (\<exists>j\<le>n. j \<le> k \<and> bit (push_bit (bit_size e) (1::int)) (k - j))"
    using bit_post_expand_loop_snd [of n "coding e" "push_bit (bit_size e) 1" k]
    by (simp only: cx snd_conv)
  also have "\<dots> \<longleftrightarrow> (\<exists>j\<le>n. j \<le> k \<and> k - j = bit_size e)"
    by (simp add: bit_exp_iff)
  also have "\<dots> \<longleftrightarrow> bit_size e \<le> k \<and> k \<le> bit_size e + n"
  proof
    assume "\<exists>j\<le>n. j \<le> k \<and> k - j = bit_size e"
    then show "bit_size e \<le> k \<and> k \<le> bit_size e + n" by auto
  next
    assume a: "bit_size e \<le> k \<and> k \<le> bit_size e + n"
    then show "\<exists>j\<le>n. j \<le> k \<and> k - j = bit_size e"
      by (intro exI [of _ "k - bit_size e"]) auto
  qed
  finally have x: "bit x k \<longleftrightarrow> bit_size e \<le> k \<and> k \<le> bit_size e + n" .
  have "coding (post_expand n e) = c AND NOT x"
    unfolding post_expand_def cx by simp
  then show ?thesis
    using c x by (simp add: bit_and_iff bit_not_iff)
qed

lemma post_expand_bit_size [simp]: "bit_size (post_expand n e) = bit_size e"
  by (cases "post_expand_loop n (coding e, push_bit (bit_size e) 1)") (simp add: post_expand_def)

lemma post_expand_in_width:
  assumes "0 \<le> coding e" "coding e < 2 ^ bit_size e"
  shows "0 \<le> coding (post_expand n e) \<and> coding (post_expand n e) < 2 ^ bit_size e"
proof -
  have b: "\<forall>k. bit (coding e) k \<longrightarrow> k < bit_size e"
    using assms bits_below_iff [of "coding e" "bit_size e"] by simp
  have "\<forall>k. bit (coding (post_expand n e)) k \<longrightarrow> k < bit_size e"
  proof (intro allI impI)
    fix k assume "bit (coding (post_expand n e)) k"
    then obtain j where j: "j \<le> n" "j \<le> k" "bit (coding e) (k - j)"
      and nk: "\<not> (bit_size e \<le> k \<and> k \<le> bit_size e + n)"
      unfolding bit_post_expand by blast
    from b j(3) have "k - j < bit_size e" by blast
    with j nk show "k < bit_size e" by linarith
  qed
  then show ?thesis using bits_below_iff [of "coding (post_expand n e)" "bit_size e"] by simp
qed

lemma post_expand_0:
  assumes "0 \<le> coding e" "coding e < 2 ^ bit_size e"
  shows "post_expand 0 e = e"
proof -
  have b: "\<forall>k. bit (coding e) k \<longrightarrow> k < bit_size e"
    using assms bits_below_iff [of "coding e" "bit_size e"] by simp
  have "coding (post_expand 0 e) = coding e"
    by (rule bit_eqI) (use b in \<open>auto simp: bit_post_expand\<close>)
  moreover have "post_expand 0 e = e\<lparr>coding := coding (post_expand 0 e)\<rparr>"
    by (simp add: post_expand_def)
  ultimately show ?thesis by simp
qed

lemma post_expand_loop_funpow:
  "fst (post_expand_loop n (c, x)) = ((\<lambda>v. v OR push_bit 1 v) ^^ n) c"
  by (induction n arbitrary: c x) (simp_all only: post_expand_loop.simps fst_conv funpow_0 funpow_Suc_right o_apply)

lemma post_expand_loop_neg:
  "c < 0 \<Longrightarrow> fst (post_expand_loop n (c, x)) < 0"
  by (induction n arbitrary: c x) simp_all

lemma post_expand_loop_nonneg:
  "0 \<le> x \<Longrightarrow> 0 \<le> snd (post_expand_loop n (c, x))"
  by (induction n arbitrary: c x) simp_all

lemma post_expand_below:
  assumes "coding e < 2 ^ bit_size e"
  shows "coding (post_expand n e) < 2 ^ bit_size (post_expand n e)"
proof (cases "0 \<le> coding e")
  case True
  with assms show ?thesis using post_expand_in_width [of e n] by simp
next
  case False
  obtain c x where cx: "post_expand_loop n (coding e, push_bit (bit_size e) 1) = (c, x)"
    by (cases "post_expand_loop n (coding e, push_bit (bit_size e) 1)")
  have "fst (post_expand_loop n (coding e, push_bit (bit_size e) 1)) < 0"
    using False by (intro post_expand_loop_neg) simp
  then have "c < 0" unfolding cx by simp
  moreover have "0 \<le> snd (post_expand_loop n (coding e, push_bit (bit_size e) 1))"
    by (intro post_expand_loop_nonneg) simp
  then have "0 \<le> x" unfolding cx by simp
  ultimately have lt0: "c AND NOT x < 0" by simp
  have "(0::int) < 2 ^ bit_size e" by simp
  with lt0 have "c AND NOT x < 2 ^ bit_size e" by linarith
  moreover have "coding (post_expand n e) = c AND NOT x"
    unfolding post_expand_def cx by simp
  ultimately show ?thesis by simp
qed

lemma get_bin_list_length:
  "0 \<le> coding e \<Longrightarrow> \<exists>s. get_bin_list e = Inr s \<and> length s = bit_size e"
  by (simp add: get_bin_list_def size_eb_def Let_def)

section \<open>The combinators\<close>

text \<open>
  Claim C3, as stated: \<^verbatim>\<open>eb_and\<close> and \<^verbatim>\<open>eb_or\<close> succeed on every pair of validly
  constructed encodings of equal width. The source builds the result of \<^verbatim>\<open>eb_or\<close>
  with the constructor, which rejects the all-ones pattern: on the valid encodings
  \<open>01\<close> and \<open>10\<close> of width 2 the union is \<open>11\<close> and \<^verbatim>\<open>eb_or\<close> raises.
\<close>

theorem eb_or_not_closed_counterexample:
  "EBEncoding_init 1 2 = Inr \<lparr>coding = 1, bit_size = 2\<rparr> \<and>
   EBEncoding_init 2 2 = Inr \<lparr>coding = 2, bit_size = 2\<rparr> \<and>
   eb_or \<lparr>coding = 1, bit_size = 2\<rparr> \<lparr>coding = 2, bit_size = 2\<rparr> = Inl InvalidWidth"
  by (simp add: EBEncoding_init_def eb_or_def size_eb_def coding_value_def)

text \<open>
  Claim C3, amended. For validly constructed encodings \<open>a\<close>, \<open>b\<close> of the same width
  \<open>w\<close> with non-negative values: \<^verbatim>\<open>eb_and\<close> succeeds with the bitwise AND at width
  \<open>w\<close>; \<^verbatim>\<open>eb_or\<close> succeeds with the bitwise OR at width \<open>w\<close> unless that OR is the
  all-ones pattern \<open>2 ^ w - 1\<close>, when it fails with \<open>InvalidWidth\<close>; both are commutative
  (as results, errors included); \<^verbatim>\<open>eb_and(a, a)\<close> is \<open>a\<close>; and the all-zero encoding
  of width \<open>w\<close> can be constructed and \<^verbatim>\<open>eb_or(a, zero)\<close> is \<open>a\<close>.
\<close>

theorem eb_and_or_algebra:
  assumes a: "EBEncoding_init va w = Inr a" and b: "EBEncoding_init vb w = Inr b"
    and nn: "0 \<le> va" "0 \<le> vb"
  shows "eb_and a b = Inr \<lparr>coding = va AND vb, bit_size = w\<rparr> \<and>
         eb_or a b = (if va OR vb = 2 ^ w - 1 then Inl InvalidWidth
                      else Inr \<lparr>coding = va OR vb, bit_size = w\<rparr>) \<and>
         eb_and a b = eb_and b a \<and> eb_or a b = eb_or b a \<and>
         eb_and a a = Inr a \<and>
         (\<exists>zero. EBEncoding_init 0 w = Inr zero \<and> eb_or a zero = Inr a)"
proof -
  from a have ea: "a = \<lparr>coding = va, bit_size = w\<rparr>" "va < 2 ^ w - 1"
    using init_InrD by blast+
  from b have eb: "b = \<lparr>coding = vb, bit_size = w\<rparr>" "vb < 2 ^ w - 1"
    using init_InrD by blast+
  have ca: "coding a = va" "bit_size a = w" "coding b = vb" "bit_size b = w"
    by (simp_all add: ea eb)
  have "va AND vb \<le> va" using nn(1) by (rule AND_upper1)
  with ea(2) have "va AND vb < 2 ^ w - 1" by linarith
  then have 1: "eb_and a b = Inr \<lparr>coding = va AND vb, bit_size = w\<rparr>"
    by (simp add: eb_and_def size_eb_def coding_value_def ca init_ok)
  have "va OR vb < 2 ^ w"
    using nn ea(2) eb(2) by (intro OR_upper) simp_all
  then have "va OR vb \<ge> 2 ^ w - 1 \<longleftrightarrow> va OR vb = 2 ^ w - 1" by linarith
  then have 2: "eb_or a b = (if va OR vb = 2 ^ w - 1 then Inl InvalidWidth
                      else Inr \<lparr>coding = va OR vb, bit_size = w\<rparr>)"
    by (simp add: eb_or_def size_eb_def coding_value_def ca EBEncoding_init_def)
  have 3: "eb_and a b = eb_and b a"
    by (simp add: eb_and_def size_eb_def coding_value_def ca and.commute)
  have 4: "eb_or a b = eb_or b a"
    by (simp add: eb_or_def size_eb_def coding_value_def ca or.commute)
  have 5: "eb_and a a = Inr a"
    by (simp add: eb_and_def size_eb_def coding_value_def ca a)
  have "(0::int) < 2 ^ w - 1" using nn(1) ea(2) by linarith
  then have z: "EBEncoding_init 0 w = Inr \<lparr>coding = 0, bit_size = w\<rparr>"
    by (rule init_ok)
  have "eb_or a \<lparr>coding = 0, bit_size = w\<rparr> = Inr a"
    by (simp add: eb_or_def size_eb_def coding_value_def ca a)
  with z have 6: "\<exists>zero. EBEncoding_init 0 w = Inr zero \<and> eb_or a zero = Inr a" by blast
  from 1 2 3 4 5 6 show ?thesis by blast
qed

theorem eb_and_or_algebra_witness:
  "eb_and \<lparr>coding = 5, bit_size = 4\<rparr> \<lparr>coding = 6, bit_size = 4\<rparr> = Inr \<lparr>coding = 4, bit_size = 4\<rparr> \<and>
   eb_or \<lparr>coding = 5, bit_size = 4\<rparr> \<lparr>coding = 6, bit_size = 4\<rparr> = Inr \<lparr>coding = 7, bit_size = 4\<rparr> \<and>
   eb_and \<lparr>coding = 5, bit_size = 4\<rparr> \<lparr>coding = 5, bit_size = 4\<rparr> = Inr \<lparr>coding = 5, bit_size = 4\<rparr>"
proof -
  have h1: "EBEncoding_init 5 4 = Inr \<lparr>coding = 5, bit_size = 4\<rparr>"
    and h2: "EBEncoding_init 6 4 = Inr \<lparr>coding = 6, bit_size = 4\<rparr>"
    by (simp_all add: EBEncoding_init_def)
  have "(5::int) AND 6 = 4" "(5::int) OR 6 = 7" by simp_all
  then show ?thesis
    using eb_and_or_algebra [OF h1 h2] by simp
qed

section \<open>Post-expansion\<close>

text \<open>
  Claim C4, as stated: post-expansion ORs the value with itself shifted right, towards
  the least-significant end. The source shifts left (\<^verbatim>\<open>self.coding << 1\<close>): on the
  value \<open>010\<close> of width 3 one round gives \<open>110\<close>, where the specification's wording
  gives \<open>011\<close>.
\<close>

theorem post_expand_spec_counterexample:
  "post_expand 1 \<lparr>coding = 2, bit_size = 3\<rparr> = \<lparr>coding = 6, bit_size = 3\<rparr> \<and>
   post_expand_spec 1 \<lparr>coding = 2, bit_size = 3\<rparr> = \<lparr>coding = 3, bit_size = 3\<rparr> \<and>
   post_expand 1 \<lparr>coding = 2, bit_size = 3\<rparr> \<noteq> post_expand_spec 1 \<lparr>coding = 2, bit_size = 3\<rparr>"
  by (simp add: post_expand_def post_expand_spec_def)

text \<open>
  Claim C4, amended. For every encoding with \<open>0 \<le> value < 2 ^ width\<close> and every
  \<open>extra_bits\<close>, \<^verbatim>\<open>post_expand\<close> keeps the width and extends each set bit towards the
  most-significant end by \<open>extra_bits\<close> positions: the new value is \<open>extra_bits\<close>
  rounds of OR-ing the value with itself shifted left by 1, cut to the low \<open>width\<close>
  bits; the bit of weight \<open>2 ^ k\<close> is set afterwards iff \<open>k < width\<close> and a bit of weight
  \<open>2 ^ (k - j)\<close> was set before, for some \<open>j \<le> extra_bits\<close>, \<open>j \<le> k\<close>.
\<close>

theorem post_expand_extends_upwards:
  assumes "0 \<le> coding e" and "coding e < 2 ^ bit_size e"
  shows "bit_size (post_expand n e) = bit_size e \<and>
         coding (post_expand n e) =
           take_bit (bit_size e) (((\<lambda>v. v OR push_bit 1 v) ^^ n) (coding e)) \<and>
         (\<forall>k. bit (coding (post_expand n e)) k \<longleftrightarrow>
                k < bit_size e \<and> (\<exists>j\<le>n. j \<le> k \<and> bit (coding e) (k - j)))"
proof -
  have b: "\<forall>k. bit (coding e) k \<longrightarrow> k < bit_size e"
    using assms bits_below_iff [of "coding e" "bit_size e"] by simp
  have bits: "bit (coding (post_expand n e)) k \<longleftrightarrow>
                k < bit_size e \<and> (\<exists>j\<le>n. j \<le> k \<and> bit (coding e) (k - j))" for k
  proof
    assume l: "bit (coding (post_expand n e)) k"
    then obtain j where j: "j \<le> n" "j \<le> k" "bit (coding e) (k - j)"
      and nk: "\<not> (bit_size e \<le> k \<and> k \<le> bit_size e + n)"
      unfolding bit_post_expand by blast
    from b j(3) have "k - j < bit_size e" by blast
    with j nk have "k < bit_size e" by linarith
    with j show "k < bit_size e \<and> (\<exists>j\<le>n. j \<le> k \<and> bit (coding e) (k - j))" by blast
  next
    assume "k < bit_size e \<and> (\<exists>j\<le>n. j \<le> k \<and> bit (coding e) (k - j))"
    then show "bit (coding (post_expand n e)) k"
      unfolding bit_post_expand by auto
  qed
  have "coding (post_expand n e) =
          take_bit (bit_size e) (((\<lambda>v. v OR push_bit 1 v) ^^ n) (coding e))"
  proof (rule bit_eqI)
    fix k
    have "bit (((\<lambda>v. v OR push_bit 1 v) ^^ n) (coding e)) k \<longleftrightarrow> (\<exists>j\<le>n. j \<le> k \<and> bit (coding e) (k - j))"
      using bit_post_expand_loop_fst [of n "coding e" 0 k] post_expand_loop_funpow [of n "coding e" 0]
      by simp
    then show "bit (coding (post_expand n e)) k \<longleftrightarrow>
        bit (take_bit (bit_size e) (((\<lambda>v. v OR push_bit 1 v) ^^ n) (coding e))) k"
      using bits [of k] by (simp add: bit_take_bit_iff)
  qed
  with bits show ?thesis by simp
qed

theorem post_expand_extends_upwards_witness:
  "bit_size (post_expand 1 \<lparr>coding = 2, bit_size = 3\<rparr>) = 3 \<and>
   coding (post_expand 1 \<lparr>coding = 2, bit_size = 3\<rparr>) = take_bit 3 (2 OR push_bit 1 2) \<and>
   bit (coding (post_expand 1 \<lparr>coding = 2, bit_size = 3\<rparr>)) 2"
proof -
  have h: "(\<exists>j\<le>1::nat. j \<le> 2 \<and> bit (2::int) (2 - j))"
    by (intro exI [of _ 1]) simp
  show ?thesis
    using post_expand_extends_upwards [of "\<lparr>coding = 2, bit_size = 3\<rparr>" 1] h by simp
qed

text \<open>
  Claim C8. For every validly constructed encoding with a non-negative value,
  \<^verbatim>\<open>post_expand(0)\<close> changes nothing, and for every \<open>extra_bits\<close> the width is kept,
  no bit at or beyond the width is set, the value stays in \<open>[0, 2 ^ width)\<close>, and
  \<^verbatim>\<open>get_bin_list\<close> still gives exactly \<open>width\<close> characters.
\<close>

theorem post_expand_stays_in_width:
  assumes "0 \<le> v" and "EBEncoding_init v w = Inr e"
  shows "post_expand 0 e = e \<and>
         bit_size (post_expand n e) = w \<and>
         (\<forall>k. w \<le> k \<longrightarrow> \<not> bit (coding (post_expand n e)) k) \<and>
         0 \<le> coding (post_expand n e) \<and> coding (post_expand n e) < 2 ^ w \<and>
         (\<exists>s. get_bin_list (post_expand n e) = Inr s \<and> length s = w)"
proof -
  from assms have e: "coding e = v" "bit_size e = w" "0 \<le> coding e" "coding e < 2 ^ bit_size e"
    using init_InrD [of v w e] by auto
  have r: "0 \<le> coding (post_expand n e) \<and> coding (post_expand n e) < 2 ^ bit_size e"
    using post_expand_in_width [OF e(3,4)] .
  then have "\<forall>k. bit (coding (post_expand n e)) k \<longrightarrow> k < w"
    using bits_below_iff [of "coding (post_expand n e)" w] e(2) by simp
  then have hi: "\<forall>k. w \<le> k \<longrightarrow> \<not> bit (coding (post_expand n e)) k"
    by (meson not_less)
  have "\<exists>s. get_bin_list (post_expand n e) = Inr s \<and> length s = bit_size (post_expand n e)"
    using r by (intro get_bin_list_length) simp
  with r hi e post_expand_0 [OF e(3,4)] show ?thesis by simp
qed

theorem post_expand_stays_in_width_witness:
  "post_expand 0 \<lparr>coding = 5, bit_size = 4\<rparr> = \<lparr>coding = 5, bit_size = 4\<rparr> \<and>
   bit_size (post_expand 2 \<lparr>coding = 5, bit_size = 4\<rparr>) = 4 \<and>
   coding (post_expand 2 \<lparr>coding = 5, bit_size = 4\<rparr>) < 2 ^ 4 \<and>
   (\<exists>s. get_bin_list (post_expand 2 \<lparr>coding = 5, bit_size = 4\<rparr>) = Inr s \<and> length s = 4)"
proof -
  have h: "EBEncoding_init 5 4 = Inr \<lparr>coding = 5, bit_size = 4\<rparr>"
    by (simp add: EBEncoding_init_def)
  show ?thesis
    using post_expand_stays_in_width [of 5 4 "\<lparr>coding = 5, bit_size = 4\<rparr>" 2, OF _ h]
    by simp
qed

section \<open>Interaction\<close>

text \<open>
  Claim C5, as stated: \<^verbatim>\<open>interaction(e, e, k)\<close> succeeds for every non-zero valid
  \<open>e\<close>. The result is built by \<^verbatim>\<open>eb_and\<close>, hence by the constructor, which rejects
  the all-ones pattern: the valid encoding \<open>01\<close> of width 2 post-expands by 1 to \<open>11\<close>
  and the interaction raises.
\<close>

theorem interaction_self_counterexample:
  "EBEncoding_init 1 2 = Inr \<lparr>coding = 1, bit_size = 2\<rparr> \<and>
   interaction \<lparr>coding = 1, bit_size = 2\<rparr> \<lparr>coding = 1, bit_size = 2\<rparr> 1 = Inl InvalidWidth"
  by (simp add: EBEncoding_init_def interaction_def op_consistence_def clone_def eb_and_def
      size_eb_def coding_value_def post_expand_def)

text \<open>
  Claim C5, amended. For every validly constructed encoding \<open>e\<close> of width \<open>w\<close> with a
  positive value and every \<open>k\<close>: \<^verbatim>\<open>interaction(e, e, k)\<close> fails with \<open>InvalidWidth\<close>
  when \<open>e\<close> post-expanded by \<open>k\<close> is the all-ones pattern \<open>2 ^ w - 1\<close>; otherwise it
  succeeds with width \<open>w\<close> and the bitwise AND of the post-expanded \<open>e\<close> with itself;
  that AND is non-zero in both cases.
\<close>

theorem interaction_self:
  assumes e: "EBEncoding_init v w = Inr e" and pos: "0 < v"
  shows "interaction e e k =
           (if coding (post_expand k e) = 2 ^ w - 1 then Inl InvalidWidth
            else Inr \<lparr>coding = coding (post_expand k e) AND coding (post_expand k e),
                      bit_size = w\<rparr>) \<and>
         coding (post_expand k e) AND coding (post_expand k e) \<noteq> 0"
proof -
  from e have ee: "e = \<lparr>coding = v, bit_size = w\<rparr>" "v < 2 ^ w - 1"
    using init_InrD by blast+
  then have ce: "coding e = v" "bit_size e = w" by simp_all
  have wf: "0 \<le> coding e" "coding e < 2 ^ bit_size e"
    using pos ee(2) ce by simp_all
  let ?p = "coding (post_expand k e)"
  have cl: "clone e = Inr e"
    using e by (simp add: clone_def size_eb_def ce)
  have r: "0 \<le> ?p \<and> ?p < 2 ^ w"
    using post_expand_in_width [OF wf] ce by simp
  then have ge: "?p \<ge> 2 ^ w - 1 \<longleftrightarrow> ?p = 2 ^ w - 1" by linarith
  have "eb_and (post_expand k e) (post_expand k e) =
          (if ?p = 2 ^ w - 1 then Inl InvalidWidth
           else Inr \<lparr>coding = ?p AND ?p, bit_size = w\<rparr>)"
    using ge by (simp add: eb_and_def size_eb_def coding_value_def EBEncoding_init_def ce)
  moreover have "interaction e e k = eb_and (post_expand k e) (post_expand k e)"
    using pos by (simp add: interaction_def coding_value_def op_consistence_def cl ce)
  moreover have "?p \<noteq> 0"
  proof -
    from pos ce have "coding e \<noteq> 0" by simp
    have "\<exists>m. bit (coding e) m"
    proof (rule ccontr)
      assume "\<not> (\<exists>m. bit (coding e) m)"
      then have "coding e = 0" by (intro bit_eqI) simp
      with \<open>coding e \<noteq> 0\<close> show False by simp
    qed
    then obtain m where m: "bit (coding e) m" by blast
    with wf have "m < bit_size e"
      using bits_below_iff [of "coding e" "bit_size e"] by blast
    with m have "bit ?p m"
      unfolding bit_post_expand by (auto intro: exI [of _ 0])
    then show ?thesis by auto
  qed
  ultimately show ?thesis by simp
qed

theorem interaction_self_witness:
  "interaction \<lparr>coding = 1, bit_size = 3\<rparr> \<lparr>coding = 1, bit_size = 3\<rparr> 1
     = Inr \<lparr>coding = 3, bit_size = 3\<rparr> \<and>
   interaction \<lparr>coding = 1, bit_size = 2\<rparr> \<lparr>coding = 1, bit_size = 2\<rparr> 1 = Inl InvalidWidth"
proof -
  have h1: "EBEncoding_init 1 3 = Inr \<lparr>coding = 1, bit_size = 3\<rparr>"
    and h2: "EBEncoding_init 1 2 = Inr \<lparr>coding = 1, bit_size = 2\<rparr>"
    by (simp_all add: EBEncoding_init_def)
  have p1: "post_expand (Suc 0) \<lparr>coding = 1, bit_size = 3\<rparr> = \<lparr>coding = 3, bit_size = 3\<rparr>"
    and p2: "post_expand (Suc 0) \<lparr>coding = 1, bit_size = 2\<rparr> = \<lparr>coding = 3, bit_size = 2\<rparr>"
    by (simp_all add: post_expand_def)
  show ?thesis
    using interaction_self [OF h1, of "Suc 0"] interaction_self [OF h2, of "Suc 0"]
    by (simp add: p1 p2)
qed

text \<open>
  Claim C9. For encodings \<open>a\<close>, \<open>b\<close> where \<open>a\<close> has a positive width (as the data
  model requires) and the value of \<open>a\<close> or of \<open>b\<close> is zero, and every \<open>extra_bits\<close>,
  \<^verbatim>\<open>interaction(a, b, extra_bits)\<close> returns the zero encoding of the width of \<open>a\<close>,
  whatever the width of \<open>b\<close>: no width check is made on this path.
\<close>

theorem interaction_zero_short_circuit:
  assumes "0 < bit_size a" and "coding a = 0 \<or> coding b = 0"
  shows "interaction a b k = Inr \<lparr>coding = 0, bit_size = bit_size a\<rparr>"
proof -
  have "(1::int) < 2 ^ bit_size a"
    using assms(1) by (simp add: one_less_power)
  then have "EBEncoding_init 0 (bit_size a) = Inr \<lparr>coding = 0, bit_size = bit_size a\<rparr>"
    by (intro init_ok) simp
  with assms(2) show ?thesis
    by (simp add: interaction_def coding_value_def size_eb_def)
qed

theorem interaction_zero_short_circuit_witness:
  "interaction \<lparr>coding = 0, bit_size = 3\<rparr> \<lparr>coding = 5, bit_size = 4\<rparr> 2
     = Inr \<lparr>coding = 0, bit_size = 3\<rparr> \<and>
   interaction \<lparr>coding = 5, bit_size = 4\<rparr> \<lparr>coding = 0, bit_size = 3\<rparr> 2
     = Inr \<lparr>coding = 0, bit_size = 4\<rparr>"
  using interaction_zero_short_circuit [of "\<lparr>coding = 0, bit_size = 3\<rparr>" "\<lparr>coding = 5, bit_size = 4\<rparr>" 2]
    interaction_zero_short_circuit [of "\<lparr>coding = 5, bit_size = 4\<rparr>" "\<lparr>coding = 0, bit_size = 3\<rparr>" 2]
  by simp

section \<open>Encoding a time window\<close>


lemma get_encoding_loop_append:
  "get_encoding_loop s e d n (xs @ ys) st =
     (case get_encoding_loop s e d n xs st of
        Inl err \<Rightarrow> Inl err
      | Inr st1 \<Rightarrow> get_encoding_loop s e d n ys st1)"
  by (induction xs arbitrary: st) (simp_all split: sum.splits)

lemma get_encoding_step_ok:
  assumes "datetime_min \<le> cur + d" and "cur + d \<le> datetime_max"
  shows "get_encoding_step s e d n i (cur, c, False) =
           Inr (cur + d, if s \<le> cur \<and> cur \<le> e then c OR push_bit (n - 1 - i) 1 else c, False)"
  using assms by (simp add: get_encoding_step_def datetime_add_def interval_def Let_def)

lemma get_encoding_step_overflow:
  assumes "\<not> (datetime_min \<le> cur + d \<and> cur + d \<le> datetime_max)"
  shows "get_encoding_step s e d n i (cur, c, b) = Inl OverflowError"
  using assms by (simp add: get_encoding_step_def datetime_add_def Let_def)

lemma get_encoding_fold:
  assumes "m \<le> n"
    and "\<forall>i. 1 \<le> i \<and> i \<le> m \<longrightarrow>
           datetime_min \<le> r + int i * d \<and> r + int i * d \<le> datetime_max"
  shows "\<exists>c. get_encoding_loop s e d n [0..<m] (r, 0, False) = Inr (r + int m * d, c, False) \<and>
           (\<forall>k. bit c k \<longleftrightarrow> k < n \<and> n - 1 - k < m \<and> s \<le> r + int (n - 1 - k) * d \<and> r + int (n - 1 - k) * d \<le> e)"
  using assms
proof (induction m)
  case 0
  then show ?case by simp
next
  case (Suc m)
  from Suc.prems have mn: "m < n" "m \<le> n" by simp_all
  from Suc.prems(2) have rep: "\<forall>i. 1 \<le> i \<and> i \<le> m \<longrightarrow>
           datetime_min \<le> r + int i * d \<and> r + int i * d \<le> datetime_max"
    by simp
  from Suc.IH [OF mn(2) rep]
  obtain c where c: "get_encoding_loop s e d n [0..<m] (r, 0, False) = Inr (r + int m * d, c, False)"
    and bc: "\<And>k. bit c k \<longleftrightarrow> k < n \<and> n - 1 - k < m \<and> s \<le> r + int (n - 1 - k) * d \<and> r + int (n - 1 - k) * d \<le> e"
    by auto
  let ?w = "s \<le> r + int m * d \<and> r + int m * d \<le> e"
  let ?c' = "if ?w then c OR push_bit (n - 1 - m) 1 else c"
  have "datetime_min \<le> r + int (Suc m) * d \<and> r + int (Suc m) * d \<le> datetime_max"
    using Suc.prems(2) by (intro Suc.prems(2) [rule_format]) simp
  then have ok: "datetime_min \<le> (r + int m * d) + d" "(r + int m * d) + d \<le> datetime_max"
    by (simp_all add: algebra_simps)
  have "(r + int m * d) + d = r + int (Suc m) * d" by (simp add: algebra_simps)
  then have step: "get_encoding_step s e d n m (r + int m * d, c, False) = Inr (r + int (Suc m) * d, ?c', False)"
    using get_encoding_step_ok [OF ok, of s e n m c] by simp
  have "get_encoding_loop s e d n [0..<Suc m] (r, 0, False) = Inr (r + int (Suc m) * d, ?c', False)"
    using c step by (simp add: get_encoding_loop_append)
  moreover have "bit ?c' k \<longleftrightarrow> k < n \<and> n - 1 - k < Suc m \<and> s \<le> r + int (n - 1 - k) * d \<and> r + int (n - 1 - k) * d \<le> e" for k
  proof (cases "k = n - 1 - m")
    case True
    with mn have k: "k < n" "n - 1 - k = m" by simp_all
    have "bit ?c' k \<longleftrightarrow> bit c k \<or> ?w"
      using True by (auto simp: bit_or_iff bit_exp_iff)
    also have "\<dots> \<longleftrightarrow> ?w" using bc [of k] k by simp
    finally show ?thesis using k by simp
  next
    case False
    have "bit ?c' k \<longleftrightarrow> bit c k"
      using False by (auto simp: bit_or_iff bit_exp_iff)
    moreover have "k < n \<Longrightarrow> n - 1 - k \<noteq> m" using False mn by linarith
    then have "k < n \<and> n - 1 - k < Suc m \<longleftrightarrow> k < n \<and> n - 1 - k < m" by auto
    ultimately show ?thesis using bc [of k] by blast
  qed
  ultimately show ?case by blast
qed

lemma get_encoding_loop_overflow:
  assumes "1 \<le> j" and "j \<le> n"
    and "\<not> (datetime_min \<le> r + int j * d \<and> r + int j * d \<le> datetime_max)"
  shows "get_encoding_loop s e d n [0..<n] (r, 0, False) = Inl OverflowError"
proof -
  define P where "P = (\<lambda>i. 1 \<le> i \<and> i \<le> n \<and>
     \<not> (datetime_min \<le> r + int i * d \<and> r + int i * d \<le> datetime_max))"
  define i0 where "i0 = (LEAST i. P i)"
  have Pj: "P j" using assms by (simp add: P_def)
  then have P0: "P i0" unfolding i0_def by (rule LeastI)
  have least: "\<And>i. P i \<Longrightarrow> i0 \<le> i" unfolding i0_def by (rule Least_le)
  from P0 have i0: "1 \<le> i0" "i0 \<le> n"
    and bad: "\<not> (datetime_min \<le> r + int i0 * d \<and> r + int i0 * d \<le> datetime_max)"
    by (simp_all add: P_def)
  define m where "m = i0 - 1"
  have m: "Suc m = i0" "m < n" "m \<le> n" using i0 by (simp_all add: m_def)
  have rep: "\<forall>i. 1 \<le> i \<and> i \<le> m \<longrightarrow>
           datetime_min \<le> r + int i * d \<and> r + int i * d \<le> datetime_max"
  proof (intro allI impI, rule ccontr)
    fix i assume i: "1 \<le> i \<and> i \<le> m"
      and "\<not> (datetime_min \<le> r + int i * d \<and> r + int i * d \<le> datetime_max)"
    with m have "P i" by (simp add: P_def)
    then have "i0 \<le> i" by (rule least)
    with i m show False by simp
  qed
  from get_encoding_fold [OF m(3) rep, of s e]
  obtain c where c: "get_encoding_loop s e d n [0..<m] (r, 0, False) = Inr (r + int m * d, c, False)"
    by blast
  have eq: "(r + int m * d) + d = r + int i0 * d" by (simp add: algebra_simps flip: m(1))
  have "\<not> (datetime_min \<le> (r + int m * d) + d \<and> (r + int m * d) + d \<le> datetime_max)"
    unfolding eq by (rule bad)
  then have st: "get_encoding_step s e d n m (r + int m * d, c, False) = Inl OverflowError"
    by (rule get_encoding_step_overflow)
  have "[0..<n] = [0..<m] @ m # [Suc m..<n]"
    using m(2) by (metis less_imp_le_nat upt_add_eq_append upt_conv_Cons le0 le_add_diff_inverse)
  then show ?thesis
    using c st by (simp add: get_encoding_loop_append)
qed

lemma mask_bits: "(\<forall>k. bit c k \<longleftrightarrow> k < n) \<Longrightarrow> c = 2 ^ n - 1" for c :: int
proof -
  assume a: "\<forall>k. bit c k \<longleftrightarrow> k < n"
  have "c = mask n" by (rule bit_eqI) (simp add: a bit_mask_iff)
  then show ?thesis by (simp add: mask_eq_exp_minus_1)
qed

lemma below_mask:
  fixes c :: int
  assumes "\<forall>k. bit c k \<longrightarrow> k < n" and "j < n" and "\<not> bit c j"
  shows "c < 2 ^ n - 1"
proof -
  from assms(1) have "0 \<le> c \<and> c < 2 ^ n" using bits_below_iff [of c n] by simp
  moreover have "c \<noteq> 2 ^ n - 1"
  proof
    assume "c = 2 ^ n - 1"
    then have "c = mask n" by (simp add: mask_eq_exp_minus_1)
    then have "bit c j" using assms(2) by (simp add: bit_mask_iff)
    with assms(3) show False by simp
  qed
  ultimately show ?thesis by linarith
qed

lemma get_encoding_cases:
  "if \<exists>i. 1 \<le> i \<and> i \<le> n \<and>
          \<not> (datetime_min \<le> r + int i * d \<and> r + int i * d \<le> datetime_max)
   then get_encoding s e r d n = Inl OverflowError
   else if \<forall>i<n. s \<le> r + int i * d \<and> r + int i * d \<le> e
   then get_encoding s e r d n = Inl InvalidWidth
   else \<exists>enc. get_encoding s e r d n = Inr enc \<and> size_eb enc = n \<and>
          (\<forall>i<n. bit (coding_value enc) (n - 1 - i) \<longleftrightarrow> s \<le> r + int i * d \<and> r + int i * d \<le> e) \<and>
          (\<forall>k\<ge>n. \<not> bit (coding_value enc) k)"
proof (cases "\<exists>i. 1 \<le> i \<and> i \<le> n \<and>
          \<not> (datetime_min \<le> r + int i * d \<and> r + int i * d \<le> datetime_max)")
  case True
  then obtain j where "1 \<le> j" "j \<le> n"
    "\<not> (datetime_min \<le> r + int j * d \<and> r + int j * d \<le> datetime_max)" by blast
  then have "get_encoding_loop s e d n [0..<n] (r, 0, False) = Inl OverflowError"
    by (rule get_encoding_loop_overflow)
  then have ov: "get_encoding s e r d n = Inl OverflowError" by (simp add: get_encoding_def)
  from True have t1: "(\<exists>i. 1 \<le> i \<and> i \<le> n \<and>
          \<not> (datetime_min \<le> r + int i * d \<and> r + int i * d \<le> datetime_max)) = True" by blast
  show ?thesis unfolding t1 if_True by (rule ov)
next
  case False
  then have f1: "(\<exists>i. 1 \<le> i \<and> i \<le> n \<and>
          \<not> (datetime_min \<le> r + int i * d \<and> r + int i * d \<le> datetime_max)) = False" by blast
  then have rep: "\<forall>i. 1 \<le> i \<and> i \<le> n \<longrightarrow>
           datetime_min \<le> r + int i * d \<and> r + int i * d \<le> datetime_max" by blast
  from get_encoding_fold [OF le_refl rep, of s e]
  obtain c where c: "get_encoding_loop s e d n [0..<n] (r, 0, False) = Inr (r + int n * d, c, False)"
    and bc: "\<And>k. bit c k \<longleftrightarrow> k < n \<and> n - 1 - k < n \<and> s \<le> r + int (n - 1 - k) * d \<and> r + int (n - 1 - k) * d \<le> e"
    by auto
  have ge: "get_encoding s e r d n = EBEncoding_init c n"
    by (simp add: get_encoding_def c)
  have bi: "bit c (n - 1 - i) \<longleftrightarrow> s \<le> r + int i * d \<and> r + int i * d \<le> e" if "i < n" for i
  proof -
    from that have "n - 1 - (n - 1 - i) = i" "n - 1 - i < n" by simp_all
    then show ?thesis using bc [of "n - 1 - i"] that by simp
  qed
  have hi: "\<forall>k. bit c k \<longrightarrow> k < n" using bc by blast
  show ?thesis
  proof (cases "\<forall>i<n. s \<le> r + int i * d \<and> r + int i * d \<le> e")
    case True
    have "\<forall>k. bit c k \<longleftrightarrow> k < n"
    proof (intro allI iffI)
      fix k assume "k < n"
      then have l: "n - 1 - k < n" by simp
      with True have "s \<le> r + int (n - 1 - k) * d \<and> r + int (n - 1 - k) * d \<le> e" by blast
      with l \<open>k < n\<close> show "bit c k" using bc [of k] by blast
    qed (use hi in blast)
    then have "c = 2 ^ n - 1" by (rule mask_bits)
    then have "EBEncoding_init c n = Inl InvalidWidth" by (intro init_fail) simp
    with ge have iw: "get_encoding s e r d n = Inl InvalidWidth" by simp
    from True have t2: "(\<forall>i<n. s \<le> r + int i * d \<and> r + int i * d \<le> e) = True" by blast
    show ?thesis unfolding f1 t2 if_False if_True by (rule iw)
  next
    case nall: False
    then obtain i where i: "i < n" "\<not> (s \<le> r + int i * d \<and> r + int i * d \<le> e)" by blast
    then have "\<not> bit c (n - 1 - i)" using bi by blast
    moreover from i have "n - 1 - i < n" by simp
    ultimately have "c < 2 ^ n - 1" using hi below_mask by blast
    then have "EBEncoding_init c n = Inr \<lparr>coding = c, bit_size = n\<rparr>" by (rule init_ok)
    with ge have "get_encoding s e r d n = Inr \<lparr>coding = c, bit_size = n\<rparr>" by simp
    moreover have "\<forall>k\<ge>n. \<not> bit c k" using hi by (meson not_less)
    ultimately have ex: "\<exists>enc. get_encoding s e r d n = Inr enc \<and> size_eb enc = n \<and>
          (\<forall>i<n. bit (coding_value enc) (n - 1 - i) \<longleftrightarrow> s \<le> r + int i * d \<and> r + int i * d \<le> e) \<and>
          (\<forall>k\<ge>n. \<not> bit (coding_value enc) k)"
      using bi by (simp add: size_eb_def coding_value_def)
    from nall have f2: "(\<forall>i<n. s \<le> r + int i * d \<and> r + int i * d \<le> e) = False" by blast
    show ?thesis unfolding f1 f2 if_False by (rule ex)
  qed
qed

lemma upt4: "[0..<4] = [0, 1, 2, 3]"
  by code_simp

lemma bit_8_iff: "bit (8::int) k \<longleftrightarrow> k = 3"
proof -
  have "(8::int) = 2 ^ 3" by simp
  then show ?thesis by (simp only: bit_exp_iff) simp
qed

lemma get_encoding_reference_only:
  assumes "d < 0" and "datetime_min \<le> t + 4 * d" and "t \<le> datetime_max"
  shows "get_encoding t t t d 4 = Inr \<lparr>coding = 8, bit_size = 4\<rparr>"
proof -
  have rng: "int i * d \<le> 0 \<and> 4 * d \<le> int i * d" if "i \<le> 4" for i
  proof -
    from that have "i = 0 \<or> i = 1 \<or> i = 2 \<or> i = 3 \<or> i = 4" by linarith
    then show ?thesis using assms(1) by auto
  qed
  have f1: "(\<exists>i. 1 \<le> i \<and> i \<le> (4::nat) \<and>
          \<not> (datetime_min \<le> t + int i * d \<and> t + int i * d \<le> datetime_max)) = False"
  proof -
    have "datetime_min \<le> t + int i * d \<and> t + int i * d \<le> datetime_max" if "i \<le> 4" for i
      using rng [OF that] assms(2,3) by linarith
    then show ?thesis by blast
  qed
  have "\<not> (t \<le> t + int 1 * d \<and> t + int 1 * d \<le> t)" using assms(1) by simp
  then have f2: "(\<forall>i<4::nat. t \<le> t + int i * d \<and> t + int i * d \<le> t) = False"
    by (metis one_less_numeral_iff semiring_norm(76))
  have "\<exists>enc. get_encoding t t t d 4 = Inr enc \<and> size_eb enc = 4 \<and>
          (\<forall>i<4. bit (coding_value enc) (4 - 1 - i) \<longleftrightarrow> t \<le> t + int i * d \<and> t + int i * d \<le> t) \<and>
          (\<forall>k\<ge>4. \<not> bit (coding_value enc) k)"
    using get_encoding_cases [of 4 t d t t] by (simp only: f1 f2 if_False)
  then obtain enc where enc: "get_encoding t t t d 4 = Inr enc" and sz: "size_eb enc = 4"
    and b: "\<And>i. i < 4 \<Longrightarrow> bit (coding_value enc) (4 - 1 - i) \<longleftrightarrow> t \<le> t + int i * d \<and> t + int i * d \<le> t"
    and h: "\<And>k. 4 \<le> k \<Longrightarrow> \<not> bit (coding_value enc) k"
    by blast
  have "coding_value enc = 8"
  proof (rule bit_eqI)
    fix k
    show "bit (coding_value enc) k \<longleftrightarrow> bit (8::int) k"
    proof (cases "k < 4")
      case False
      then show ?thesis using h [of k] by (simp add: bit_8_iff)
    next
      case True
      then have "k = 0 \<or> k = 1 \<or> k = 2 \<or> k = 3" by linarith
      then show ?thesis
        using b [of 3] b [of 2] b [of 1] b [of 0] assms(1) by (auto simp: bit_8_iff)
    qed
  qed
  with sz have "enc = \<lparr>coding = 8, bit_size = 4\<rparr>"
    by (simp add: coding_value_def size_eb_def)
  with enc show ?thesis by simp
qed

lemma get_encoding_below: "get_encoding s en r d n = Inr e \<Longrightarrow> coding e < 2 ^ bit_size e"
  by (auto simp: get_encoding_def EBEncoding_init_def split: sum.splits prod.splits if_splits)

text \<open>
  Claim C1, as stated: for \<open>start = end = reference_time\<close>, a step of \<open>-1\<close> unit and 4
  bits, exactly the least-significant bit is set and the value is 1. The source sets
  \<^verbatim>\<open>1 << (num_bits - 1 - i)\<close> for step \<open>i\<close>, so the reference instant (step 0) is the
  most-significant bit: the value is 8. The instant used here is midnight of day 730000
  after \<^verbatim>\<open>datetime.min\<close> and the step is one day backwards, so every sum of the loop is
  a \<^verbatim>\<open>datetime\<close>.
\<close>

theorem get_encoding_counterexample:
  "datetime_min \<le> 63072000000000000 \<and> 63072000000000000 \<le> datetime_max \<and>
   get_encoding 63072000000000000 63072000000000000 63072000000000000 (- 86400000000) 4
     = Inr \<lparr>coding = 8, bit_size = 4\<rparr>"
  by code_simp

text \<open>
  Claim C1, amended. \<^verbatim>\<open>get_encoding(start, end, reference_time, step, bit_count)\<close>
  fails with \<^verbatim>\<open>OverflowError\<close> when one of the \<open>bit_count\<close> sums
  \<open>reference_time + i * step\<close>, \<open>1 \<le> i \<le> bit_count\<close>, is not a \<^verbatim>\<open>datetime\<close> (the loop
  adds the step once more after the last sample). Otherwise it fails with \<open>InvalidWidth\<close>
  when every one of the \<open>bit_count\<close> instants \<open>reference_time + i * step\<close>,
  \<open>0 \<le> i < bit_count\<close>, lies in \<open>[start, end]\<close> (the code would be the all-ones pattern;
  this includes \<open>bit_count = 0\<close>). Otherwise it returns an encoding of width \<open>bit_count\<close>
  in which, for every \<open>i\<close> in \<open>[0, bit_count)\<close>, the bit of weight
  \<open>2 ^ (bit_count - 1 - i)\<close>, that is bit index \<open>i\<close> counted from the most-significant
  end, is set iff \<open>reference_time + i * step\<close> lies in \<open>[start, end]\<close> inclusive, and no bit
  at or beyond the width is set. For \<open>start = end = reference_time = t\<close>, a negative step
  \<open>u\<close> with \<open>t + 4 * u\<close> still a \<^verbatim>\<open>datetime\<close>, and 4 bits, exactly the most-significant
  bit (index 0) is set and the value is 8.
\<close>

theorem get_encoding_bits:
  "(if \<exists>i. 1 \<le> i \<and> i \<le> n \<and>
          \<not> (datetime_min \<le> r + int i * d \<and> r + int i * d \<le> datetime_max)
    then get_encoding s e r d n = Inl OverflowError
    else if \<forall>i<n. s \<le> r + int i * d \<and> r + int i * d \<le> e
    then get_encoding s e r d n = Inl InvalidWidth
    else \<exists>enc. get_encoding s e r d n = Inr enc \<and> size_eb enc = n \<and>
           (\<forall>i<n. bit (coding_value enc) (n - 1 - i) \<longleftrightarrow> s \<le> r + int i * d \<and> r + int i * d \<le> e) \<and>
           (\<forall>k\<ge>n. \<not> bit (coding_value enc) k)) \<and>
   (u < 0 \<and> datetime_min \<le> t + 4 * u \<and> t \<le> datetime_max \<longrightarrow>
      get_encoding t t t u 4 = Inr \<lparr>coding = 8, bit_size = 4\<rparr>)"
proof (intro conjI impI)
  show "if \<exists>i. 1 \<le> i \<and> i \<le> n \<and>
          \<not> (datetime_min \<le> r + int i * d \<and> r + int i * d \<le> datetime_max)
    then get_encoding s e r d n = Inl OverflowError
    else if \<forall>i<n. s \<le> r + int i * d \<and> r + int i * d \<le> e
    then get_encoding s e r d n = Inl InvalidWidth
    else \<exists>enc. get_encoding s e r d n = Inr enc \<and> size_eb enc = n \<and>
           (\<forall>i<n. bit (coding_value enc) (n - 1 - i) \<longleftrightarrow> s \<le> r + int i * d \<and> r + int i * d \<le> e) \<and>
           (\<forall>k\<ge>n. \<not> bit (coding_value enc) k)"
    by (rule get_encoding_cases)
next
  assume "u < 0 \<and> datetime_min \<le> t + 4 * u \<and> t \<le> datetime_max"
  then show "get_encoding t t t u 4 = Inr \<lparr>coding = 8, bit_size = 4\<rparr>"
    by (intro get_encoding_reference_only) simp_all
qed

theorem get_encoding_bits_witness:
  "get_encoding 0 0 3 (- 1) 4 = Inl OverflowError \<and>
   get_encoding 0 5 3 (- 1) 2 = Inl InvalidWidth \<and>
   (\<exists>enc. get_encoding 1 2 4 (- 1) 4 = Inr enc \<and> size_eb enc = 4 \<and>
      \<not> bit (coding_value enc) 3 \<and> \<not> bit (coding_value enc) 2 \<and>
      bit (coding_value enc) 1 \<and> bit (coding_value enc) 0) \<and>
   get_encoding 63072000000000000 63072000000000000 63072000000000000 (- 86400000000) 4
     = Inr \<lparr>coding = 8, bit_size = 4\<rparr>"
proof -
  note main = get_encoding_bits [THEN conjunct1]
  have "(1::nat) \<le> 4 \<and> (4::nat) \<le> 4 \<and>
      \<not> (datetime_min \<le> 3 + int 4 * (- 1) \<and> 3 + int 4 * (- 1) \<le> datetime_max)"
    by (simp add: datetime_min_def)
  then have o1: "(\<exists>i. 1 \<le> i \<and> i \<le> (4::nat) \<and>
          \<not> (datetime_min \<le> 3 + int i * (- 1) \<and> 3 + int i * (- 1) \<le> datetime_max)) = True"
    by blast
  have w1: "get_encoding 0 0 3 (- 1) 4 = Inl OverflowError"
    using main [of 4 3 "- 1" 0 0] by (simp only: o1 if_True)
  have o2: "(\<exists>i. 1 \<le> i \<and> i \<le> (2::nat) \<and>
          \<not> (datetime_min \<le> 3 + int i * (- 1) \<and> 3 + int i * (- 1) \<le> datetime_max)) = False"
    by (auto simp: datetime_min_def datetime_max_def)
  have a2: "(\<forall>i<2::nat. (0::int) \<le> 3 + int i * (- 1) \<and> 3 + int i * (- 1) \<le> 5) = True"
    by auto
  have w2: "get_encoding 0 5 3 (- 1) 2 = Inl InvalidWidth"
    using main [of 2 3 "- 1" 0 5] by (simp only: o2 a2 if_False if_True)
  have o3: "(\<exists>i. 1 \<le> i \<and> i \<le> (4::nat) \<and>
          \<not> (datetime_min \<le> 4 + int i * (- 1) \<and> 4 + int i * (- 1) \<le> datetime_max)) = False"
    by (auto simp: datetime_min_def datetime_max_def)
  have "\<not> ((1::int) \<le> 4 + int 0 * (- 1) \<and> 4 + int 0 * (- 1) \<le> (2::int))" by simp
  then have a3: "(\<forall>i<4::nat. (1::int) \<le> 4 + int i * (- 1) \<and> 4 + int i * (- 1) \<le> 2) = False"
    by (metis zero_less_numeral)
  have "\<exists>enc. get_encoding 1 2 4 (- 1) 4 = Inr enc \<and> size_eb enc = 4 \<and>
           (\<forall>i<4. bit (coding_value enc) (4 - 1 - i) \<longleftrightarrow> (1::int) \<le> 4 + int i * (- 1) \<and> 4 + int i * (- 1) \<le> 2) \<and>
           (\<forall>k\<ge>4. \<not> bit (coding_value enc) k)"
    using main [of 4 4 "- 1" 1 2] by (simp only: o3 a3 if_False)
  then obtain enc where enc: "get_encoding 1 2 4 (- 1) 4 = Inr enc" "size_eb enc = 4"
    and b: "\<forall>i<4. bit (coding_value enc) (4 - 1 - i) \<longleftrightarrow> (1::int) \<le> 4 + int i * (- 1) \<and> 4 + int i * (- 1) \<le> 2"
    by blast
  from b [rule_format, of 0] b [rule_format, of 1] b [rule_format, of 2] b [rule_format, of 3]
  have "\<not> bit (coding_value enc) 3 \<and> \<not> bit (coding_value enc) 2 \<and> bit (coding_value enc) 1 \<and>
      bit (coding_value enc) 0" by simp
  with enc have w3: "\<exists>enc. get_encoding 1 2 4 (- 1) 4 = Inr enc \<and> size_eb enc = 4 \<and>
      \<not> bit (coding_value enc) 3 \<and> \<not> bit (coding_value enc) 2 \<and>
      bit (coding_value enc) 1 \<and> bit (coding_value enc) 0" by blast
  have "(- 86400000000 :: int) < 0 \<and> datetime_min \<le> 63072000000000000 + 4 * (- 86400000000) \<and>
      63072000000000000 \<le> datetime_max"
    by (simp add: datetime_min_def datetime_max_def)
  then have w4: "get_encoding 63072000000000000 63072000000000000 63072000000000000 (- 86400000000) 4
     = Inr \<lparr>coding = 8, bit_size = 4\<rparr>"
    by (rule get_encoding_bits [THEN conjunct2, THEN mp])
  from w1 w2 w3 w4 show ?thesis by (intro conjI)
qed

section \<open>The bit list and scaling down\<close>


lemma bin_digits_length_pos: "0 < length (bin_digits n)"
  by (subst bin_digits.simps) simp

lemma bin_digits_bound: "n < 2 ^ length (bin_digits n)"
proof (induction n rule: bin_digits.induct)
  case (1 n)
  show ?case
  proof (cases "n < 2")
    case True
    then show ?thesis by (subst bin_digits.simps) simp
  next
    case False
    then have "n div 2 < 2 ^ length (bin_digits (n div 2))" using 1 by simp
    then have "n < 2 * 2 ^ length (bin_digits (n div 2))" by linarith
    with False show ?thesis by (subst bin_digits.simps) simp
  qed
qed

lemma bin_digits_nth:
  "k < length (bin_digits n) \<Longrightarrow>
   bin_digits n ! k = (if bit n (length (bin_digits n) - 1 - k) then CHR ''1'' else CHR ''0'')"
proof (induction n arbitrary: k rule: bin_digits.induct)
  case (1 n)
  show ?case
  proof (cases "n < 2")
    case True
    then have s: "bin_digits n = [if n = 0 then CHR ''0'' else CHR ''1'']"
      by (subst bin_digits.simps) simp
    with "1.prems" have "k = 0" by simp
    from True have "n = 0 \<or> n = 1" by linarith
    then show ?thesis using s \<open>k = 0\<close> by (auto simp: bit_0)
  next
    case False
    let ?h = "bin_digits (n div 2)"
    have s: "bin_digits n = ?h @ [if n mod 2 = 0 then CHR ''0'' else CHR ''1'']"
      using False by (subst bin_digits.simps) simp
    then have len: "length (bin_digits n) = Suc (length ?h)" by simp
    show ?thesis
    proof (cases "k < length ?h")
      case True
      then have "?h ! k = (if bit (n div 2) (length ?h - 1 - k) then CHR ''1'' else CHR ''0'')"
        using "1.IH" [OF False] by simp
      moreover have "bit n (length (bin_digits n) - 1 - k) \<longleftrightarrow> bit (n div 2) (length ?h - 1 - k)"
      proof -
        from True have "length (bin_digits n) - 1 - k = Suc (length ?h - 1 - k)"
          using len by simp
        then show ?thesis by (simp only: bit_Suc)
      qed
      moreover have "bin_digits n ! k = ?h ! k"
        using True by (simp add: s nth_append)
      ultimately show ?thesis by simp
    next
      case False
      with "1.prems" len have k: "k = length ?h" by simp
      then have "bin_digits n ! k = (if n mod 2 = 0 then CHR ''0'' else CHR ''1'')"
        by (simp add: s)
      moreover have "length (bin_digits n) - 1 - k = 0" using k len by simp
      moreover have "bit n 0 \<longleftrightarrow> n mod 2 \<noteq> 0" by (simp add: bit_0 odd_iff_mod_2_eq_one)
      ultimately show ?thesis by simp
    qed
  qed
qed

lemma get_bin_list_bits:
  assumes "0 \<le> coding e"
  shows "get_bin_list e =
           Inr (map (\<lambda>idx. if bit (coding e) (bit_size e - 1 - idx) then CHR ''1'' else CHR ''0'')
                  [0..<bit_size e])"
proof -
  let ?n = "nat (coding e)"
  let ?arr = "bin_digits ?n"
  let ?L = "length ?arr"
  let ?w = "bit_size e"
  have bn: "bit ?n k \<longleftrightarrow> bit (coding e) k" for k
    using assms by (simp add: bit_nat_iff)
  have hi: "\<not> bit (coding e) k" if "?L \<le> k" for k
  proof
    assume b: "bit (coding e) k"
    have "int ?n < int (2 ^ ?L)" using bin_digits_bound [of ?n] by (simp only: of_nat_less_iff)
    then have "coding e < 2 ^ ?L" using assms by simp
    with assms have "\<forall>k. bit (coding e) k \<longrightarrow> k < ?L"
      using bits_below_iff [of "coding e" ?L] by simp
    with b have "k < ?L" by blast
    with that show False by simp
  qed
  have "(if int idx < int ?w - int ?L then CHR ''0''
         else ?arr ! nat (int ?L - int ?w + int idx)) =
        (if bit (coding e) (?w - 1 - idx) then CHR ''1'' else CHR ''0'')"
    if "idx < ?w" for idx
  proof (cases "int idx < int ?w - int ?L")
    case True
    then have "?L \<le> ?w - 1 - idx" by linarith
    then have "\<not> bit (coding e) (?w - 1 - idx)" using hi by blast
    with True show ?thesis by simp
  next
    case False
    let ?j = "nat (int ?L - int ?w + int idx)"
    from False that have j: "?j < ?L" by linarith
    from False that have "?L - 1 - ?j = ?w - 1 - idx" by linarith
    then have "?arr ! ?j = (if bit ?n (?w - 1 - idx) then CHR ''1'' else CHR ''0'')"
      using bin_digits_nth [OF j] by simp
    with False show ?thesis by (simp add: bn)
  qed
  then have meq: "map (\<lambda>idx. if int idx < int ?w - int ?L then CHR ''0''
         else ?arr ! nat (int ?L - int ?w + int idx)) [0..<?w] =
       map (\<lambda>idx. if bit (coding e) (?w - 1 - idx) then CHR ''1'' else CHR ''0'') [0..<?w]"
    by (intro map_cong refl) simp
  have g: "get_bin_list e = Inr (map (\<lambda>idx. if int idx < int ?w - int ?L then CHR ''0''
         else ?arr ! nat (int ?L - int ?w + int idx)) [0..<?w])"
    using assms by (simp add: get_bin_list_def size_eb_def Let_def)
  show ?thesis unfolding g meq by (rule refl)
qed

lemma set_slice:
  "x \<in> set (slice xs a b) \<longleftrightarrow> (\<exists>p. a \<le> p \<and> p < b \<and> p < length xs \<and> xs ! p = x)"
proof
  assume "x \<in> set (slice xs a b)"
  then obtain i where i: "i < length (slice xs a b)" "slice xs a b ! i = x"
    by (auto simp: in_set_conv_nth)
  then have "i < b - a" "a + i < length xs" by (auto simp: slice_def)
  moreover from this i have "xs ! (a + i) = x" by (simp add: slice_def)
  ultimately show "\<exists>p. a \<le> p \<and> p < b \<and> p < length xs \<and> xs ! p = x"
    by (intro exI [of _ "a + i"]) auto
next
  assume "\<exists>p. a \<le> p \<and> p < b \<and> p < length xs \<and> xs ! p = x"
  then obtain p where p: "a \<le> p" "p < b" "p < length xs" "xs ! p = x" by blast
  then have "p - a < length (slice xs a b)" by (auto simp: slice_def)
  moreover have "slice xs a b ! (p - a) = x" using p by (simp add: slice_def)
  ultimately show "x \<in> set (slice xs a b)" by (metis nth_mem)
qed

lemma group_has_one:
  fixes c :: int
  defines "barr \<equiv> \<lambda>w. map (\<lambda>idx. if bit c (w - 1 - idx) then CHR ''1'' else CHR ''0'') [0..<w]"
  shows "0 < count_list (slice (barr w) (i * g) (min ((i + 1) * g) (length (barr w)))) (CHR ''1'')
         \<longleftrightarrow> (\<exists>p. i * g \<le> p \<and> p < (i + 1) * g \<and> p < w \<and> bit c (w - 1 - p))"
proof -
  have len: "length (barr w) = w" by (simp add: barr_def)
  have nth: "barr w ! p = CHR ''1'' \<longleftrightarrow> bit c (w - 1 - p)" if "p < w" for p
    using that by (simp add: barr_def)
  have "0 < count_list (slice (barr w) (i * g) (min ((i + 1) * g) (length (barr w)))) (CHR ''1'')
        \<longleftrightarrow> CHR ''1'' \<in> set (slice (barr w) (i * g) (min ((i + 1) * g) w))"
    by (simp add: len zero_less_iff_neq_zero count_list_0_iff)
  also have "\<dots> \<longleftrightarrow> (\<exists>p. i * g \<le> p \<and> p < min ((i + 1) * g) w \<and> p < w \<and> barr w ! p = CHR ''1'')"
    by (simp only: set_slice len)
  also have "\<dots> \<longleftrightarrow> (\<exists>p. i * g \<le> p \<and> p < (i + 1) * g \<and> p < w \<and> bit c (w - 1 - p))"
    using nth by auto
  finally show ?thesis .
qed

lemma scale_down_fold:
  assumes "m \<le> F"
  shows "bit (fold (scale_down_step barr g F) [0..<m] 0) k \<longleftrightarrow>
           k < F \<and> F - 1 - k < m \<and>
           0 < count_list (slice barr ((F - 1 - k) * g) (min ((F - 1 - k + 1) * g) (length barr))) (CHR ''1'')"
  using assms
proof (induction m arbitrary: k)
  case 0
  then show ?case by simp
next
  case (Suc m)
  then have mF: "m < F" by simp
  let ?G = "\<lambda>i. 0 < count_list (slice barr (i * g) (min ((i + 1) * g) (length barr))) (CHR ''1'')"
  let ?r = "fold (scale_down_step barr g F) [0..<m] 0"
  have IH: "bit ?r k \<longleftrightarrow> k < F \<and> F - 1 - k < m \<and> ?G (F - 1 - k)" for k
    using Suc.IH [of k] mF by simp
  have f: "fold (scale_down_step barr g F) [0..<Suc m] 0 =
             (if ?G m then ?r OR push_bit (F - m - 1) 1 else ?r)"
    by (simp add: scale_down_step_def Let_def)
  show ?case
  proof (cases "k = F - 1 - m")
    case True
    with mF have k: "k < F" "F - 1 - k = m" by simp_all
    have "\<not> bit ?r k" using IH [of k] k by simp
    moreover have "F - m - 1 = k" using True by simp
    ultimately have "bit (if ?G m then ?r OR push_bit (F - m - 1) 1 else ?r) k \<longleftrightarrow> ?G m"
      by (auto simp: bit_or_iff bit_exp_iff)
    then show ?thesis unfolding f using k by simp
  next
    case False
    then have "F - m - 1 \<noteq> k" by simp
    then have "bit (if ?G m then ?r OR push_bit (F - m - 1) 1 else ?r) k \<longleftrightarrow> bit ?r k"
      by (auto simp: bit_or_iff bit_exp_iff)
    moreover have "k < F \<Longrightarrow> F - 1 - k \<noteq> m" using False mF by linarith
    then have "k < F \<and> F - 1 - k < Suc m \<longleftrightarrow> k < F \<and> F - 1 - k < m" by auto
    ultimately show ?thesis unfolding f using IH [of k] by blast
  qed
qed

lemma float_limit_gt: "n < 2 ^ 53 \<Longrightarrow> n < float_limit"
  by (simp add: float_limit_def)

lemma scale_down_bits:
  assumes "0 \<le> coding e" and "0 < g" and "g < float_limit" and "bit_size e < float_limit"
  shows "\<exists>rc. scale_down g e =
             Inr \<lparr>coding = rc, bit_size = nat \<lceil>real (bit_size e) / real g\<rceil>\<rparr> \<and>
           (\<forall>j. bit rc j \<longleftrightarrow> j < nat \<lceil>real (bit_size e) / real g\<rceil> \<and>
              (\<exists>p. (nat \<lceil>real (bit_size e) / real g\<rceil> - 1 - j) * g \<le> p \<and>
                   p < (nat \<lceil>real (bit_size e) / real g\<rceil> - 1 - j + 1) * g \<and>
                   p < bit_size e \<and> bit (coding e) (bit_size e - 1 - p)))"
proof -
  let ?w = "bit_size e"
  let ?F = "nat \<lceil>real ?w / real g\<rceil>"
  let ?barr = "map (\<lambda>idx. if bit (coding e) (?w - 1 - idx) then CHR ''1'' else CHR ''0'') [0..<?w]"
  let ?rc = "fold (scale_down_step ?barr g ?F) [0..<?F] 0"
  have "scale_down g e = Inr (e\<lparr>bit_size := ?F, coding := ?rc\<rparr>)"
    using assms by (simp add: scale_down_def get_bin_list_bits size_eb_def Let_def)
  then have 1: "scale_down g e = Inr \<lparr>coding = ?rc, bit_size = ?F\<rparr>" by simp
  have "bit ?rc j \<longleftrightarrow> j < ?F \<and>
      (\<exists>p. (?F - 1 - j) * g \<le> p \<and> p < (?F - 1 - j + 1) * g \<and> p < ?w \<and>
           bit (coding e) (?w - 1 - p))" for j
  proof -
    have "bit ?rc j \<longleftrightarrow> j < ?F \<and> ?F - 1 - j < ?F \<and>
           0 < count_list (slice ?barr ((?F - 1 - j) * g) (min ((?F - 1 - j + 1) * g) (length ?barr))) (CHR ''1'')"
      by (rule scale_down_fold) simp
    also have "\<dots> \<longleftrightarrow> j < ?F \<and>
           0 < count_list (slice ?barr ((?F - 1 - j) * g) (min ((?F - 1 - j + 1) * g) (length ?barr))) (CHR ''1'')"
      by auto
    finally show ?thesis
      unfolding group_has_one [of "coding e" ?w "?F - 1 - j" g] .
  qed
  with 1 show ?thesis by blast
qed

lemma scale_down_overflow:
  assumes "0 \<le> coding e" and "float_limit \<le> g"
  shows "scale_down g e = Inl OverflowError"
  using assms by (simp add: scale_down_def get_bin_list_bits)

lemma scale_down_below:
  assumes "scale_down g e = Inr e'"
  shows "0 \<le> coding e' \<and> coding e' < 2 ^ bit_size e'"
proof -
  from assms have nn: "0 \<le> coding e"
    by (auto simp: scale_down_def get_bin_list_def split: if_splits)
  from assms have g: "0 < g" "g < float_limit" "bit_size e < float_limit"
    by (auto simp: scale_down_def size_eb_def split: sum.splits if_splits)
  from scale_down_bits [OF nn g] assms
  obtain rc where e': "e' = \<lparr>coding = rc, bit_size = nat \<lceil>real (bit_size e) / real g\<rceil>\<rparr>"
    and b: "\<forall>j. bit rc j \<longrightarrow> j < nat \<lceil>real (bit_size e) / real g\<rceil>"
    by auto
  from b have "0 \<le> rc \<and> rc < 2 ^ nat \<lceil>real (bit_size e) / real g\<rceil>"
    using bits_below_iff [of rc "nat \<lceil>real (bit_size e) / real g\<rceil>"] by simp
  then show ?thesis by (simp add: e')
qed

lemma get_bin_list_5_4: "get_bin_list \<lparr>coding = 5, bit_size = 4\<rparr> = Inr ''0101''"
  by code_simp

lemma fold_0101: "fold (scale_down_step ''0101'' 2 2) [0..<2] 0 = 3"
  by code_simp

lemma scale_down_5_4: "scale_down 2 \<lparr>coding = 5, bit_size = 4\<rparr> = Inr \<lparr>coding = 3, bit_size = 2\<rparr>"
  by (simp add: scale_down_def get_bin_list_5_4 size_eb_def fold_0101 float_limit_def)

lemma scale_down_groups_gen:
  assumes "0 \<le> coding e" and "0 < g" and "g < float_limit" and "bit_size e < float_limit"
  shows "\<exists>e'. scale_down g e = Inr e' \<and>
            bit_size e' = nat \<lceil>real (bit_size e) / real g\<rceil> \<and>
            (\<forall>k<bit_size e'. bit (coding e') (bit_size e' - 1 - k) \<longleftrightarrow>
               (\<exists>p. k * g \<le> p \<and> p < (k + 1) * g \<and> p < bit_size e \<and>
                    bit (coding e) (bit_size e - 1 - p))) \<and>
            (\<forall>j\<ge>bit_size e'. \<not> bit (coding e') j)"
proof -
  let ?F = "nat \<lceil>real (bit_size e) / real g\<rceil>"
  from scale_down_bits [OF assms]
  obtain rc where sd: "scale_down g e = Inr \<lparr>coding = rc, bit_size = ?F\<rparr>"
    and b: "\<And>j. bit rc j \<longleftrightarrow> j < ?F \<and>
            (\<exists>p. (?F - 1 - j) * g \<le> p \<and> p < (?F - 1 - j + 1) * g \<and>
                 p < bit_size e \<and> bit (coding e) (bit_size e - 1 - p))"
    by blast
  have "bit rc (?F - 1 - k) \<longleftrightarrow>
             (\<exists>p. k * g \<le> p \<and> p < (k + 1) * g \<and> p < bit_size e \<and>
                  bit (coding e) (bit_size e - 1 - p))" if "k < ?F" for k
  proof -
    from that have "?F - 1 - (?F - 1 - k) = k" "?F - 1 - k < ?F" by linarith+
    then show ?thesis using b [of "?F - 1 - k"] by simp
  qed
  moreover have "\<forall>j\<ge>?F. \<not> bit rc j" using b by (meson not_less)
  ultimately show ?thesis using sd by simp
qed

lemma scale_down_one:
  assumes "0 \<le> coding e" and "coding e < 2 ^ bit_size e" and "bit_size e < float_limit"
  shows "scale_down 1 e = Inr e"
proof -
  let ?w = "bit_size e"
  have "(0::nat) < 1" and "1 < float_limit" by (simp_all add: float_limit_def)
  from scale_down_bits [OF assms(1) this assms(3)]
  obtain rc where sd: "scale_down 1 e = Inr \<lparr>coding = rc, bit_size = ?w\<rparr>"
    and b: "\<And>j. bit rc j \<longleftrightarrow> j < ?w \<and>
            (\<exists>p. (?w - 1 - j) \<le> p \<and> p < (?w - 1 - j + 1) \<and>
                 p < ?w \<and> bit (coding e) (?w - 1 - p))"
    by auto
  have lo: "\<forall>k. bit (coding e) k \<longrightarrow> k < ?w"
    using assms(1,2) bits_below_iff [of "coding e" ?w] by simp
  have "rc = coding e"
  proof (rule bit_eqI)
    fix j
    show "bit rc j \<longleftrightarrow> bit (coding e) j"
    proof
      assume "bit rc j"
      then obtain p where j: "j < ?w" and p: "?w - 1 - j \<le> p" "p < ?w - 1 - j + 1"
        and bp: "bit (coding e) (?w - 1 - p)"
        using b [of j] by blast
      from p have "p = ?w - 1 - j" by linarith
      with j have "?w - 1 - p = j" by linarith
      with bp show "bit (coding e) j" by simp
    next
      assume bj: "bit (coding e) j"
      with lo have j: "j < ?w" by blast
      then have "?w - 1 - (?w - 1 - j) = j" by linarith
      with bj j have "(?w - 1 - j) \<le> ?w - 1 - j \<and> ?w - 1 - j < (?w - 1 - j + 1) \<and>
                 ?w - 1 - j < ?w \<and> bit (coding e) (?w - 1 - (?w - 1 - j))" by simp
      with j show "bit rc j" using b [of j] by blast
    qed
  qed
  with sd show ?thesis by simp
qed

text \<open>
  Claim C6, as stated, covers every \<open>group_size \<ge> 1\<close>. The new width is computed on
  floats, \<^verbatim>\<open>int(math.ceil(self.size() * 1.0 / bits2merge))\<close>: with the group size
  \<open>2 ^ 1024\<close> the conversion of \<^verbatim>\<open>bits2merge\<close> to a float raises \<^verbatim>\<open>OverflowError\<close>,
  here on the valid encoding \<open>0101\<close> of width 4.
\<close>

theorem scale_down_overflow_counterexample:
  "(1::nat) \<le> 2 ^ 1024 \<and>
   EBEncoding_init 5 4 = Inr \<lparr>coding = 5, bit_size = 4\<rparr> \<and>
   scale_down (2 ^ 1024) \<lparr>coding = 5, bit_size = 4\<rparr> = Inl OverflowError"
  by (simp add: EBEncoding_init_def scale_down_def get_bin_list_5_4 size_eb_def float_limit_def)

text \<open>
  Claim C6, amended. For every encoding of width \<open>w < 2 ^ 53\<close> with
  \<open>0 \<le> value < 2 ^ w\<close>: for every group size with
  \<open>1 \<le> group_size < 2 ^ 1024 - 2 ^ 970\<close>, \<^verbatim>\<open>scale_down(group_size)\<close> succeeds; the new
  width is \<open>ceil(w / group_size)\<close>; new bit \<open>k\<close>, counted from the most-significant end of
  the new width, is set iff some bit of source group \<open>k\<close> was set, that is a bit at a
  position \<open>p\<close> (counted from the most-significant end of the old width) with
  \<open>k * group_size \<le> p < (k + 1) * group_size\<close> and \<open>p < w\<close>, so the last group may be
  shorter; and no bit at or beyond the new width is set. For every group size from
  \<open>2 ^ 1024 - 2 ^ 970\<close> on, \<^verbatim>\<open>scale_down\<close> fails with \<^verbatim>\<open>OverflowError\<close>.
  \<^verbatim>\<open>scale_down(1)\<close> leaves value and width unchanged.
\<close>

theorem scale_down_groups:
  assumes "0 \<le> coding e" and "coding e < 2 ^ bit_size e" and "bit_size e < 2 ^ 53"
  shows "(1 \<le> g \<and> g < float_limit \<longrightarrow>
           (\<exists>e'. scale_down g e = Inr e' \<and>
              bit_size e' = nat \<lceil>real (bit_size e) / real g\<rceil> \<and>
              (\<forall>k<bit_size e'. bit (coding e') (bit_size e' - 1 - k) \<longleftrightarrow>
                 (\<exists>p. k * g \<le> p \<and> p < (k + 1) * g \<and> p < bit_size e \<and>
                      bit (coding e) (bit_size e - 1 - p))) \<and>
              (\<forall>j\<ge>bit_size e'. \<not> bit (coding e') j))) \<and>
         (float_limit \<le> g \<longrightarrow> scale_down g e = Inl OverflowError) \<and>
         scale_down 1 e = Inr e"
proof (intro conjI impI)
  have w: "bit_size e < float_limit" using assms(3) by (rule float_limit_gt)
  {
    assume "1 \<le> g \<and> g < float_limit"
    then have "0 < g" and "g < float_limit" by simp_all
    then show "\<exists>e'. scale_down g e = Inr e' \<and>
              bit_size e' = nat \<lceil>real (bit_size e) / real g\<rceil> \<and>
              (\<forall>k<bit_size e'. bit (coding e') (bit_size e' - 1 - k) \<longleftrightarrow>
                 (\<exists>p. k * g \<le> p \<and> p < (k + 1) * g \<and> p < bit_size e \<and>
                      bit (coding e) (bit_size e - 1 - p))) \<and>
              (\<forall>j\<ge>bit_size e'. \<not> bit (coding e') j)"
      using assms(1) w by (intro scale_down_groups_gen)
  }
  {
    assume "float_limit \<le> g"
    with assms(1) show "scale_down g e = Inl OverflowError" by (rule scale_down_overflow)
  }
  show "scale_down 1 e = Inr e" using assms(1,2) w by (rule scale_down_one)
qed

theorem scale_down_groups_witness:
  "(\<exists>e'. scale_down 2 \<lparr>coding = 5, bit_size = 4\<rparr> = Inr e' \<and> bit_size e' = 2 \<and>
      bit (coding e') 1 \<and> bit (coding e') 0 \<and> \<not> bit (coding e') 2) \<and>
   scale_down (2 ^ 1024) \<lparr>coding = 5, bit_size = 4\<rparr> = Inl OverflowError \<and>
   scale_down 1 \<lparr>coding = 5, bit_size = 4\<rparr> = Inr \<lparr>coding = 5, bit_size = 4\<rparr>"
proof -
  let ?e = "\<lparr>coding = 5, bit_size = 4\<rparr>"
  have h: "0 \<le> coding ?e" "coding ?e < 2 ^ bit_size ?e" "bit_size ?e < 2 ^ 53" by simp_all
  note sg = scale_down_groups [OF h]
  have f: "nat \<lceil>real (bit_size ?e) / real 2\<rceil> = 2" by simp
  have "(1::nat) \<le> 2 \<and> 2 < float_limit" by (simp add: float_limit_def)
  then have "\<exists>e'. scale_down 2 ?e = Inr e' \<and>
              bit_size e' = nat \<lceil>real (bit_size ?e) / real 2\<rceil> \<and>
              (\<forall>k<bit_size e'. bit (coding e') (bit_size e' - 1 - k) \<longleftrightarrow>
                 (\<exists>p. k * 2 \<le> p \<and> p < (k + 1) * 2 \<and> p < bit_size ?e \<and>
                      bit (coding ?e) (bit_size ?e - 1 - p))) \<and>
              (\<forall>j\<ge>bit_size e'. \<not> bit (coding e') j)"
    by (rule sg [of 2, THEN conjunct1, THEN mp])
  then obtain e' where sd: "scale_down 2 ?e = Inr e'" and w: "bit_size e' = 2"
    and b: "\<forall>k<2. bit (coding e') (2 - 1 - k) \<longleftrightarrow>
               (\<exists>p. k * 2 \<le> p \<and> p < (k + 1) * 2 \<and> p < 4 \<and> bit (5::int) (4 - 1 - p))"
    and hi: "\<forall>j\<ge>2. \<not> bit (coding e') j"
    by (auto simp: f)
  have "\<exists>p. 0 * 2 \<le> p \<and> p < (0 + 1) * 2 \<and> p < 4 \<and> bit (5::int) (4 - 1 - p)"
    by (intro exI [of _ 1]) simp
  with b [rule_format, of 0] have b1: "bit (coding e') 1" by simp
  have "\<exists>p. 1 * 2 \<le> p \<and> p < (1 + 1) * 2 \<and> p < 4 \<and> bit (5::int) (4 - 1 - p)"
    by (intro exI [of _ 3]) (simp add: bit_0)
  with b [rule_format, of 1] have b0: "bit (coding e') 0" by simp
  from hi have "\<not> bit (coding e') 2" by simp
  with sd w b1 b0 have 1: "\<exists>e'. scale_down 2 ?e = Inr e' \<and> bit_size e' = 2 \<and>
      bit (coding e') 1 \<and> bit (coding e') 0 \<and> \<not> bit (coding e') 2" by blast
  have "float_limit \<le> 2 ^ 1024" by (simp add: float_limit_def)
  then have 2: "scale_down (2 ^ 1024) ?e = Inl OverflowError"
    by (rule sg [of "2 ^ 1024", THEN conjunct2, THEN conjunct1, THEN mp])
  have 3: "scale_down 1 ?e = Inr ?e"
    by (rule sg [of 1, THEN conjunct2, THEN conjunct2])
  from 1 2 3 show ?thesis by (intro conjI)
qed

section \<open>The construction invariant and the mutators\<close>


lemma init_below: "EBEncoding_init v w = Inr e \<Longrightarrow> coding e < 2 ^ bit_size e"
  by (auto simp: EBEncoding_init_def split: if_splits)

lemma eb_and_below: "eb_and a b = Inr e \<Longrightarrow> coding e < 2 ^ bit_size e"
  by (auto simp: eb_and_def Let_def dest: init_below split: if_splits)

lemma eb_or_below: "eb_or a b = Inr e \<Longrightarrow> coding e < 2 ^ bit_size e"
  by (auto simp: eb_or_def Let_def dest: init_below split: if_splits)

lemma interaction_below: "interaction a b k = Inr e \<Longrightarrow> coding e < 2 ^ bit_size e"
  by (auto simp: interaction_def Let_def dest: init_below eb_and_below split: if_splits sum.splits)

text \<open>
  Claim C10, as stated, gives value 2, width 2, \<open>extra_bits = 1\<close> as an encoding that
  \<^verbatim>\<open>post_expand\<close> turns into the all-ones pattern. The source shifts left and cuts at
  the width: \<open>10\<close> stays \<open>10\<close>, and \<^verbatim>\<open>clone\<close> succeeds afterwards.
\<close>

theorem post_expand_example_counterexample:
  "EBEncoding_init 2 2 = Inr \<lparr>coding = 2, bit_size = 2\<rparr> \<and>
   post_expand 1 \<lparr>coding = 2, bit_size = 2\<rparr> = \<lparr>coding = 2, bit_size = 2\<rparr> \<and>
   clone (post_expand 1 \<lparr>coding = 2, bit_size = 2\<rparr>) = Inr \<lparr>coding = 2, bit_size = 2\<rparr>"
  by (simp add: EBEncoding_init_def post_expand_def clone_def size_eb_def)

text \<open>
  Claim C10, amended. The construction invariant \<open>value < 2 ^ width - 1\<close> is not
  preserved by the in-place mutators: \<^verbatim>\<open>post_expand\<close> on value 1, width 2 with
  \<open>extra_bits = 1\<close>, and \<^verbatim>\<open>scale_down\<close> on value 5, width 4 with group size 2, both
  leave value 3 at width 2, the all-ones pattern, on which \<^verbatim>\<open>clone\<close> raises the
  construction error. The weaker invariant \<open>value < 2 ^ width\<close> is preserved by
  \<^verbatim>\<open>post_expand\<close> and holds for every result of \<^verbatim>\<open>scale_down\<close>, the constructor,
  \<^verbatim>\<open>clone\<close>, \<^verbatim>\<open>eb_and\<close>, \<^verbatim>\<open>eb_or\<close>, \<^verbatim>\<open>interaction\<close> and
  \<^verbatim>\<open>get_encoding\<close>.
\<close>

theorem mutators_break_construction_invariant:
  "EBEncoding_init 1 2 = Inr \<lparr>coding = 1, bit_size = 2\<rparr> \<and>
   post_expand 1 \<lparr>coding = 1, bit_size = 2\<rparr> = \<lparr>coding = 3, bit_size = 2\<rparr> \<and>
   EBEncoding_init 5 4 = Inr \<lparr>coding = 5, bit_size = 4\<rparr> \<and>
   scale_down 2 \<lparr>coding = 5, bit_size = 4\<rparr> = Inr \<lparr>coding = 3, bit_size = 2\<rparr> \<and>
   clone \<lparr>coding = 3, bit_size = 2\<rparr> = Inl InvalidWidth \<and>
   (\<forall>e n. coding e < 2 ^ bit_size e \<longrightarrow>
      coding (post_expand n e) < 2 ^ bit_size (post_expand n e)) \<and>
   (\<forall>e g e'. scale_down g e = Inr e' \<longrightarrow> coding e' < 2 ^ bit_size e') \<and>
   (\<forall>v w e. EBEncoding_init v w = Inr e \<longrightarrow> coding e < 2 ^ bit_size e) \<and>
   (\<forall>e e'. clone e = Inr e' \<longrightarrow> coding e' < 2 ^ bit_size e') \<and>
   (\<forall>a b e. eb_and a b = Inr e \<longrightarrow> coding e < 2 ^ bit_size e) \<and>
   (\<forall>a b e. eb_or a b = Inr e \<longrightarrow> coding e < 2 ^ bit_size e) \<and>
   (\<forall>a b k e. interaction a b k = Inr e \<longrightarrow> coding e < 2 ^ bit_size e) \<and>
   (\<forall>s en r d n e. get_encoding s en r d n = Inr e \<longrightarrow> coding e < 2 ^ bit_size e)"
proof -
  have 1: "EBEncoding_init 1 2 = Inr \<lparr>coding = 1, bit_size = 2\<rparr>"
    and 3: "EBEncoding_init 5 4 = Inr \<lparr>coding = 5, bit_size = 4\<rparr>"
    by (simp_all add: EBEncoding_init_def)
  have 2: "post_expand 1 \<lparr>coding = 1, bit_size = 2\<rparr> = \<lparr>coding = 3, bit_size = 2\<rparr>"
    by (simp add: post_expand_def)
  have 5: "clone \<lparr>coding = 3, bit_size = 2\<rparr> = Inl InvalidWidth"
    by (simp add: clone_def size_eb_def EBEncoding_init_def)
  have 9: "\<forall>e e'. clone e = Inr e' \<longrightarrow> coding e' < 2 ^ bit_size e'"
    by (auto simp: clone_def dest: init_below)
  from 1 2 3 scale_down_5_4 5 9 post_expand_below scale_down_below init_below eb_and_below
    eb_or_below interaction_below get_encoding_below
  show ?thesis by blast
qed

theorem mutators_break_construction_invariant_witness:
  "coding (post_expand 1 \<lparr>coding = 1, bit_size = 2\<rparr>) < 2 ^ 2 \<and>
   clone (post_expand 1 \<lparr>coding = 1, bit_size = 2\<rparr>) = Inl InvalidWidth"
proof -
  note m = mutators_break_construction_invariant
  note inv = m [THEN conjunct2, THEN conjunct2, THEN conjunct2, THEN conjunct2,
      THEN conjunct2, THEN conjunct1, rule_format]
  have "coding \<lparr>coding = 1, bit_size = 2\<rparr> < (2::int) ^ bit_size \<lparr>coding = 1, bit_size = 2\<rparr>"
    by simp
  then have "coding (post_expand 1 \<lparr>coding = 1, bit_size = 2\<rparr>)
          < 2 ^ bit_size (post_expand 1 \<lparr>coding = 1, bit_size = 2\<rparr>)"
    by (rule inv)
  moreover have "post_expand 1 \<lparr>coding = 1, bit_size = 2\<rparr> = \<lparr>coding = 3, bit_size = 2\<rparr>"
    by (rule m [THEN conjunct2, THEN conjunct1])
  moreover have "clone \<lparr>coding = 3, bit_size = 2\<rparr> = Inl InvalidWidth"
    by (rule m [THEN conjunct2, THEN conjunct2, THEN conjunct2, THEN conjunct2, THEN conjunct1])
  ultimately show ?thesis by simp
qed

section \<open>Pairwise intersection of two vectors\<close>


subsection \<open>The index keys are injective\<close>














subsection \<open>The loop\<close>












subsection \<open>Concrete vectors\<close>

















end
